theory Spec2Isabelle
  imports Main "HOL-Library.AList" "HOL-Library.Sublist"
begin

section \<open>Python string operations used by clean_data.py\<close>

text \<open>
  File names are modelled as HOL strings (lists of 8-bit characters). The program only
  compares names against ASCII suffixes, so \<open>str.lower\<close> is modelled on ASCII letters and
  leaves every other character alone.
\<close>

definition endswith :: "string \<Rightarrow> string \<Rightarrow> bool" where
  "endswith s suf = (length suf \<le> length s \<and> drop (length s - length suf) s = suf)"

definition lower_char :: "char \<Rightarrow> char" where
  "lower_char c =
     (case map_of (zip ''ABCDEFGHIJKLMNOPQRSTUVWXYZ'' ''abcdefghijklmnopqrstuvwxyz'') c of
        None \<Rightarrow> c
      | Some d \<Rightarrow> d)"

definition lower :: "string \<Rightarrow> string" where
  "lower s = map lower_char s"

text \<open>
  \<open>str.rfind\<close>: the index of the last occurrence of a character, or \<open>-1\<close>. The scan
  runs left to right and remembers the last index at which the character was seen.
\<close>

primrec rfind_from :: "char \<Rightarrow> string \<Rightarrow> int \<Rightarrow> int \<Rightarrow> int" where
  "rfind_from c [] i found = found"
| "rfind_from c (x # xs) i found = rfind_from c xs (i + 1) (if x = c then i else found)"

definition rfind :: "string \<Rightarrow> char \<Rightarrow> int" where
  "rfind p c = rfind_from c p 0 (- 1)"

text \<open>
  \<open>os.path.splitext\<close> (posixpath, through \<open>genericpath._splitext\<close>): the extension
  starts at the last dot of the last path component, provided some character between the
  start of that component and the dot is not a dot; otherwise the extension is empty.
  Only the part after the LAST dot is ever an extension: \<open>x.nii.gz\<close> splits into
  \<open>x.nii\<close> and \<open>.gz\<close>.
\<close>

definition splitext :: "string \<Rightarrow> string \<times> string" where
  "splitext p =
     (let sepIndex = rfind p CHR ''/'';
          dotIndex = rfind p CHR ''.''
      in if dotIndex > sepIndex \<and>
            filter (\<lambda>ch. ch \<noteq> CHR ''.'') (drop (nat (sepIndex + 1)) (take (nat dotIndex) p)) \<noteq> []
         then (take (nat dotIndex) p, drop (nat dotIndex) p)
         else (p, []))"

section \<open>The allow-list of the cleaning pass\<close>

definition VALID_EXTENSIONS :: "string set" where
  "VALID_EXTENSIONS = {''.dcm'', ''.json'', ''.nii.gz''}"

definition VALID_FILENAMES :: "string set" where
  "VALID_FILENAMES = {''LICENSE''}"

text \<open>
  The test of line 153: \<open>ext = os.path.splitext(fname)[1].lower()\<close>, and the file is
  removed when \<open>ext not in VALID_EXTENSIONS and fname not in VALID_FILENAMES\<close>.
\<close>

definition invalid_file :: "string \<Rightarrow> bool" where
  "invalid_file fname =
     (let ext = lower (snd (splitext fname))
      in ext \<notin> VALID_EXTENSIONS \<and> fname \<notin> VALID_FILENAMES)"

section \<open>The file system\<close>

text \<open>
  A directory tree: a node is a regular file or a directory with named entries, in
  listing order. The state of the output directory is \<open>fsnode option\<close>, \<open>None\<close> when
  nothing exists at that path. Paths are lists of components below the output directory
  (\<open>os.path.join\<close> of names that hold no separator). Symbolic links and file contents
  are not modelled.
\<close>

datatype fsnode = File | Dir "(string \<times> fsnode) list"

type_synonym path = "string list"
type_synonym fs = "fsnode option"

fun is_dir :: "fs \<Rightarrow> bool" where
  "is_dir (Some (Dir es)) = True"
| "is_dir n = False"

fun lookup :: "path \<Rightarrow> fs \<Rightarrow> fs" where
  "lookup [] n = n"
| "lookup (x # xs) (Some (Dir es)) = lookup xs (map_of es x)"
| "lookup (x # xs) n = None"

text \<open>
  \<open>alter p f\<close> replaces what stands at path \<open>p\<close> (nothing, a file or a directory) by
  \<open>f\<close> of it; when the parent of \<open>p\<close> is not an existing directory nothing changes.
\<close>

fun alter :: "path \<Rightarrow> (fs \<Rightarrow> fs) \<Rightarrow> fs \<Rightarrow> fs" where
  "alter [] f n = f n"
| "alter (x # xs) f (Some (Dir es)) =
     Some (Dir (case alter xs f (map_of es x) of
                  None \<Rightarrow> AList.delete x es
                | Some c \<Rightarrow> AList.update x c es))"
| "alter (x # xs) f n = n"

text \<open>
  \<open>os.makedirs(p, exist_ok=True)\<close> on the tree: missing directories are created, existing
  ones are kept, and a regular file on the way makes the call raise (\<open>None\<close>).
\<close>

fun makedirs :: "path \<Rightarrow> fs \<Rightarrow> fsnode option" where
  "makedirs p (Some File) = None"
| "makedirs [] None = Some (Dir [])"
| "makedirs [] (Some (Dir es)) = Some (Dir es)"
| "makedirs (x # xs) None = map_option (\<lambda>c. Dir [(x, c)]) (makedirs xs None)"
| "makedirs (x # xs) (Some (Dir es)) =
     map_option (\<lambda>c. Dir (AList.update x c es)) (makedirs xs (map_of es x))"

text \<open>\<open>open(p, 'wb')\<close> and a complete write: the parent must be a directory and \<open>p\<close> itself not one.\<close>

definition write_file :: "path \<Rightarrow> fs \<Rightarrow> fs option" where
  "write_file p t =
     (if p \<noteq> [] \<and> is_dir (lookup (butlast p) t) \<and> \<not> is_dir (lookup p t)
      then Some (alter p (\<lambda>n. Some File) t)
      else None)"

section \<open>The environment: which system calls fail\<close>

text \<open>
  What an archive yields when \<open>zipfile.ZipFile(local_zip_path)\<close> is opened and
  \<open>extractall\<close> runs: the members (relative paths) written before the call returned or
  raised, and how it ended.
\<close>

datatype zip_member = ZDir path | ZFile path

datatype unzip_outcome =
    BadZipFile "zip_member list"
  | UnzipError "zip_member list"
  | Unzipped "zip_member list"

text \<open>
  The program cannot see why a system call fails (permissions, a full disk, a damaged
  archive, an unreadable image); the \<open>world\<close> says, per path, which calls succeed.
  One run of \<open>process_series\<close> asks about each path at most once per kind of call, so
  a fixed answer per path loses nothing there; two sweeps of the Sanitizer are given two
  worlds.
\<close>

record world =
  can_mkdir :: "path \<Rightarrow> bool"
  can_copy :: "path \<Rightarrow> bool"
  unzip :: "path \<Rightarrow> unzip_outcome"
  can_remove :: "path \<Rightarrow> bool"
  can_rmdir :: "path \<Rightarrow> bool"
  can_read :: "path list \<Rightarrow> bool"
  can_write :: "path \<Rightarrow> bool"

text \<open>Each call returns the new tree, or \<open>None\<close> when it raises; a call that raises changes nothing.\<close>

definition os_makedirs :: "world \<Rightarrow> path \<Rightarrow> fs \<Rightarrow> fs option" where
  "os_makedirs w p t = (if can_mkdir w p then map_option Some (makedirs p t) else None)"

text \<open>
  \<open>shutil.copy2(src, dst)\<close>: when \<open>dst\<close> is an existing directory the file is copied into
  it under the base name of \<open>src\<close>.
\<close>

definition shutil_copy2 :: "world \<Rightarrow> string \<Rightarrow> path \<Rightarrow> fs \<Rightarrow> fs option" where
  "shutil_copy2 w src_name dst t =
     (if can_copy w dst
      then write_file (if is_dir (lookup dst t) then dst @ [src_name] else dst) t
      else None)"

definition os_remove :: "world \<Rightarrow> path \<Rightarrow> fs \<Rightarrow> fs option" where
  "os_remove w p t =
     (if can_remove w p \<and> lookup p t = Some File then Some (alter p (\<lambda>n. None) t) else None)"

definition sitk_WriteImage :: "world \<Rightarrow> path \<Rightarrow> fs \<Rightarrow> fs option" where
  "sitk_WriteImage w p t = (if can_write w p then write_file p t else None)"

text \<open>
  \<open>shutil.rmtree(p, ignore_errors=True)\<close>: every entry is unlinked, every directory is
  removed once it is empty, and a removal the system refuses is skipped silently, so what
  could not be removed stays. A path that is not a directory is left alone (the call
  fails on it and the error is ignored).
\<close>

fun rmtree_node :: "world \<Rightarrow> path \<Rightarrow> fsnode \<Rightarrow> fsnode option"
  and rmtree_in :: "world \<Rightarrow> path \<Rightarrow> (string \<times> fsnode) list \<Rightarrow> (string \<times> fsnode) list" where
  "rmtree_node w p File = (if can_remove w p then None else Some File)"
| "rmtree_node w p (Dir es) =
     (let es' = rmtree_in w p es
      in if es' = [] \<and> can_rmdir w p then None else Some (Dir es'))"
| "rmtree_in w p [] = []"
| "rmtree_in w p ((n, c) # es) =
     (case rmtree_node w (p @ [n]) c of
        None \<Rightarrow> rmtree_in w p es
      | Some c' \<Rightarrow> (n, c') # rmtree_in w p es)"

definition shutil_rmtree :: "world \<Rightarrow> path \<Rightarrow> fs \<Rightarrow> fs" where
  "shutil_rmtree w p t =
     alter p (\<lambda>n. case n of Some (Dir es) \<Rightarrow> rmtree_node w p (Dir es) | other \<Rightarrow> other) t"

text \<open>
  \<open>ZipFile.extractall\<close>: each member creates its parent directories and then itself; the
  first member that cannot be written raises and the members before it stay on disk.
\<close>

fun extract_member :: "path \<Rightarrow> zip_member \<Rightarrow> fs \<Rightarrow> fs option" where
  "extract_member base (ZDir rel) t = map_option Some (makedirs (base @ rel) t)"
| "extract_member base (ZFile rel) t =
     (case makedirs (base @ butlast rel) t of
        None \<Rightarrow> None
      | Some n \<Rightarrow> write_file (base @ rel) (Some n))"

fun extractall :: "path \<Rightarrow> zip_member list \<Rightarrow> fs \<Rightarrow> fs \<times> bool" where
  "extractall base [] t = (t, True)"
| "extractall base (m # ms) t =
     (case extract_member base m t of
        None \<Rightarrow> (t, False)
      | Some t' \<Rightarrow> extractall base ms t')"

text \<open>
  \<open>os.walk(top)\<close>, top-down: one triple (dirpath, dirnames, filenames) per directory, a
  directory before its subdirectories. Nothing is yielded when \<open>top\<close> is not a directory.
\<close>

fun os_walk :: "path \<Rightarrow> fsnode \<Rightarrow> (path \<times> string list \<times> string list) list" where
  "os_walk p File = []"
| "os_walk p (Dir es) =
     (p, map fst (filter (\<lambda>e. snd e \<noteq> File) es), map fst (filter (\<lambda>e. snd e = File) es))
     # concat (map (\<lambda>e. os_walk (p @ [fst e]) (snd e)) es)"

section \<open>UnitLocator: filter_series\<close>

text \<open>
  Lines 16--31. A Python set is modelled as a list without duplicates (\<open>List.insert\<close>
  adds an element once); the order of a set is not specified by Python and no property
  below depends on it. \<open>os.path.isfile\<close> holds of the entries that are regular files.
\<close>

definition filter_series_step ::
  "string \<times> fsnode \<Rightarrow> string list \<times> string list \<Rightarrow> string list \<times> string list" where
  "filter_series_step e ids =
     (case (e, ids) of ((f, node), (zip_ids, json_ids)) \<Rightarrow>
        if endswith f ''.zip'' \<and> node = File
        then (List.insert (fst (splitext f)) zip_ids, json_ids)
        else if endswith f ''.json'' \<and> node = File
        then (zip_ids, List.insert (fst (splitext f)) json_ids)
        else (zip_ids, json_ids))"

definition filter_series :: "(string \<times> fsnode) list \<Rightarrow> string list" where
  "filter_series date_entries =
     (case fold filter_series_step date_entries ([], []) of
        (zip_ids, json_ids) \<Rightarrow> filter (\<lambda>s. s \<in> set json_ids) zip_ids)"

text \<open>
  A task is the triple (patient_folder, date_folder, series_id); the input and output
  roots of the source's 5-tuple are fixed throughout a run and the trees are taken
  relative to them. Lines 210--215 append one task per series id of a date directory.
\<close>

type_synonym task = "string \<times> string \<times> string"

definition date_tasks :: "string \<Rightarrow> string \<Rightarrow> (string \<times> fsnode) list \<Rightarrow> task list" where
  "date_tasks patient_folder date_folder date_entries =
     map (\<lambda>sid. (patient_folder, date_folder, sid)) (filter_series date_entries)"

text \<open>
  The specification's wording of the same sets: the stems of the archive files and of the
  sidecar files of a date directory, a stem being the name without its extension.
\<close>

definition archive_stems :: "(string \<times> fsnode) list \<Rightarrow> string set" where
  "archive_stems date_entries =
     set (map (\<lambda>e. fst (splitext (fst e)))
            (filter (\<lambda>e. snd e = File \<and> endswith (fst e) ''.zip'') date_entries))"

definition sidecar_stems :: "(string \<times> fsnode) list \<Rightarrow> string set" where
  "sidecar_stems date_entries =
     set (map (\<lambda>e. fst (splitext (fst e)))
            (filter (\<lambda>e. snd e = File \<and> endswith (fst e) ''.json'') date_entries))"

section \<open>UnitPipeline: process_series\<close>

text \<open>
  The function either raises or returns a value: \<open>None\<close> (a bare \<open>return\<close>) or the triple
  of line 138. Every \<open>print\<close> is recorded as a message.
\<close>

datatype 'a result = Raised | Returned 'a

datatype message =
    CopyZipFailed
  | BadZip
  | UnzipFailed
  | NoDicomFound
  | ReadFailed
  | WriteFailed
  | RemoveDicomFailed path
  | CopyJsonFailed
  | FinishedSeries

type_synonym outcome = "task option result \<times> message list \<times> fs"

text \<open>\<open>shutil.rmtree(series_out_dir, ignore_errors=True); return\<close> (lines 75--76, 80--81, 98--99, 108--109, 117--118).\<close>

definition rollback :: "world \<Rightarrow> path \<Rightarrow> message list \<Rightarrow> fs \<Rightarrow> outcome" where
  "rollback w series_out_dir log t = (Returned None, log, shutil_rmtree w series_out_dir t)"

text \<open>
  The two \<open>except\<close> blocks of the unzip step (lines 71--81): the warning is printed, then
  \<open>os.remove(local_zip_path)\<close> runs outside any \<open>try\<close>, then the rollback.
\<close>

definition unzip_failed :: "world \<Rightarrow> path \<Rightarrow> path \<Rightarrow> message list \<Rightarrow> fs \<Rightarrow> outcome" where
  "unzip_failed w local_zip_path series_out_dir log t =
     (case os_remove w local_zip_path t of
        None \<Rightarrow> (Raised, log, t)
      | Some t' \<Rightarrow> rollback w series_out_dir log t')"

text \<open>Lines 88--93: the files below the series directory whose lower-cased name ends in \<open>.dcm\<close>.\<close>

definition collect_dcm :: "path \<Rightarrow> fs \<Rightarrow> path list" where
  "collect_dcm series_out_dir t =
     (case lookup series_out_dir t of
        None \<Rightarrow> []
      | Some n \<Rightarrow>
          concat (map (\<lambda>(root, dirs, files).
                         map (\<lambda>fname. root @ [fname])
                           (filter (\<lambda>fname. endswith (lower fname) ''.dcm'') files))
                    (os_walk series_out_dir n)))"

text \<open>Lines 121--125: each removal is tried on its own, a failure is printed and the loop goes on.\<close>

fun remove_dcm_files :: "world \<Rightarrow> path list \<Rightarrow> fs \<Rightarrow> message list \<times> fs" where
  "remove_dcm_files w [] t = ([], t)"
| "remove_dcm_files w (dcm_file # rest) t =
     (case os_remove w dcm_file t of
        None \<Rightarrow> (case remove_dcm_files w rest t of
                   (log, t') \<Rightarrow> (RemoveDicomFailed dcm_file # log, t'))
      | Some t1 \<Rightarrow> remove_dcm_files w rest t1)"

text \<open>Lines 120--138: remove the DICOM files, copy the JSON sidecar, return the triple.\<close>

definition finalize_series :: "world \<Rightarrow> task \<Rightarrow> path list \<Rightarrow> fs \<Rightarrow> outcome" where
  "finalize_series w task dcm_files t =
     (case task of (patient_folder, date_folder, series_id) \<Rightarrow>
        (case remove_dcm_files w dcm_files t of (log1, t1) \<Rightarrow>
           (let series_out_dir = [patient_folder, date_folder, series_id];
                local_json_path = series_out_dir @ [series_id @ ''.json'']
            in case shutil_copy2 w (series_id @ ''.json'') local_json_path t1 of
                 None \<Rightarrow> (Returned (Some task), log1 @ [CopyJsonFailed, FinishedSeries], t1)
               | Some t2 \<Rightarrow> (Returned (Some task), log1 @ [FinishedSeries], t2))))"

text \<open>Lines 86--118: collect the DICOM files, read the series, write the NIfTI file.\<close>

definition nifti_conversion :: "world \<Rightarrow> task \<Rightarrow> fs \<Rightarrow> outcome" where
  "nifti_conversion w task t =
     (case task of (patient_folder, date_folder, series_id) \<Rightarrow>
        (let series_out_dir = [patient_folder, date_folder, series_id];
             dcm_files = collect_dcm series_out_dir t
         in if dcm_files = [] then rollback w series_out_dir [NoDicomFound] t
            else if \<not> can_read w dcm_files then rollback w series_out_dir [ReadFailed] t
            else (case sitk_WriteImage w (series_out_dir @ [series_id @ ''.nii.gz'']) t of
                    None \<Rightarrow> rollback w series_out_dir [WriteFailed] t
                  | Some t1 \<Rightarrow> finalize_series w task dcm_files t1)))"

text \<open>
  Lines 42--84, then the conversion. The two \<open>os.makedirs\<close> calls and the
  \<open>os.remove(local_zip_path)\<close> of line 84 stand outside every \<open>try\<close>: when one of them
  fails the exception leaves the function.
\<close>

definition process_series :: "world \<Rightarrow> task \<Rightarrow> fs \<Rightarrow> outcome" where
  "process_series w task t =
     (case task of (patient_folder, date_folder, series_id) \<Rightarrow>
        (let out_date_path = [patient_folder, date_folder];
             series_out_dir = out_date_path @ [series_id];
             local_zip_path = series_out_dir @ [series_id @ ''.zip'']
         in case os_makedirs w out_date_path t of
              None \<Rightarrow> (Raised, [], t)
            | Some t1 \<Rightarrow>
               (case os_makedirs w series_out_dir t1 of
                  None \<Rightarrow> (Raised, [], t1)
                | Some t2 \<Rightarrow>
                   (case shutil_copy2 w (series_id @ ''.zip'') local_zip_path t2 of
                      None \<Rightarrow> (Returned None, [CopyZipFailed], t2)
                    | Some t3 \<Rightarrow>
                       if lookup local_zip_path t3 \<noteq> Some File
                       then unzip_failed w local_zip_path series_out_dir [UnzipFailed] t3
                       else
                        (case unzip w local_zip_path of
                           BadZipFile ms \<Rightarrow>
                            (case extractall series_out_dir ms t3 of (t4, ok) \<Rightarrow>
                               unzip_failed w local_zip_path series_out_dir
                                 [if ok then BadZip else UnzipFailed] t4)
                         | UnzipError ms \<Rightarrow>
                            (case extractall series_out_dir ms t3 of (t4, ok) \<Rightarrow>
                               unzip_failed w local_zip_path series_out_dir [UnzipFailed] t4)
                         | Unzipped ms \<Rightarrow>
                            (case extractall series_out_dir ms t3 of (t4, ok) \<Rightarrow>
                               if \<not> ok
                               then unzip_failed w local_zip_path series_out_dir [UnzipFailed] t4
                               else (case os_remove w local_zip_path t4 of
                                       None \<Rightarrow> (Raised, [], t4)
                                     | Some t5 \<Rightarrow> nifti_conversion w task t5)))))))"

section \<open>Sanitizer: remove_invalid_files_and_empty_dirs\<close>

text \<open>
  Lines 148--158. \<open>os.walk(root_dir, topdown=False)\<close> yields every directory after its
  subdirectories; the loop body removes, in the directory it is given, the files that
  fail the allow-list test. A removal the system refuses is printed and skipped. The
  recursion below visits the subdirectories of a directory and its own files in the same
  way; \<open>p\<close> is the path of the directory.
\<close>

fun remove_invalid_files :: "world \<Rightarrow> path \<Rightarrow> fsnode \<Rightarrow> fsnode"
  and remove_invalid_in :: "world \<Rightarrow> path \<Rightarrow> (string \<times> fsnode) list \<Rightarrow> (string \<times> fsnode) list" where
  "remove_invalid_files w p File = File"
| "remove_invalid_files w p (Dir es) = Dir (remove_invalid_in w p es)"
| "remove_invalid_in w p [] = []"
| "remove_invalid_in w p ((fname, File) # es) =
     (if invalid_file fname \<and> can_remove w (p @ [fname])
      then remove_invalid_in w p es
      else (fname, File) # remove_invalid_in w p es)"
| "remove_invalid_in w p ((d, Dir ds) # es) =
     (d, remove_invalid_files w (p @ [d]) (Dir ds)) # remove_invalid_in w p es"

text \<open>
  Lines 161--168. Bottom-up again: when a directory is reached its subdirectories have
  been handled, \<open>os.listdir\<close> reads what is left, and an empty directory is removed with
  \<open>os.rmdir\<close> (a refusal is printed and skipped). The walk starts at \<open>root_dir\<close> itself,
  so the root is the last directory tested. The result is \<open>None\<close> when the directory
  is gone.
\<close>

fun remove_empty_dirs :: "world \<Rightarrow> path \<Rightarrow> fsnode \<Rightarrow> fsnode option"
  and remove_empty_in :: "world \<Rightarrow> path \<Rightarrow> (string \<times> fsnode) list \<Rightarrow> (string \<times> fsnode) list" where
  "remove_empty_dirs w p File = Some File"
| "remove_empty_dirs w p (Dir es) =
     (let es' = remove_empty_in w p es
      in if es' = [] \<and> can_rmdir w p then None else Some (Dir es'))"
| "remove_empty_in w p [] = []"
| "remove_empty_in w p ((fname, File) # es) = (fname, File) # remove_empty_in w p es"
| "remove_empty_in w p ((d, Dir ds) # es) =
     (case remove_empty_dirs w (p @ [d]) (Dir ds) of
        None \<Rightarrow> remove_empty_in w p es
      | Some c \<Rightarrow> (d, c) # remove_empty_in w p es)"

text \<open>The whole function, on the tree at \<open>root_dir\<close>; \<open>os.walk\<close> yields nothing for a missing root.\<close>

definition remove_invalid_files_and_empty_dirs :: "world \<Rightarrow> fs \<Rightarrow> fs" where
  "remove_invalid_files_and_empty_dirs w root =
     (case root of
        None \<Rightarrow> None
      | Some n \<Rightarrow> remove_empty_dirs w [] (remove_invalid_files w [] n))"

section \<open>Dispatcher: the serial loop of main\<close>

text \<open>
  Lines 225--228, the branch taken when \<open>nprocs\<close> is at most 1:
  \<open>for _ in map(process_series, tasks): pass\<close>. The returned values are dropped; an
  exception raised by one call ends the loop and the program.
\<close>

fun dispatch_serial :: "world \<Rightarrow> task list \<Rightarrow> fs \<Rightarrow> unit result \<times> message list \<times> fs" where
  "dispatch_serial w [] t = (Returned (), [], t)"
| "dispatch_serial w (task # tasks) t =
     (case process_series w task t of
        (Raised, log, t') \<Rightarrow> (Raised, log, t')
      | (Returned v, log, t') \<Rightarrow>
          (case dispatch_serial w tasks t' of
             (r, log', t'') \<Rightarrow> (r, log @ log', t'')))"

text \<open>Lines 219--233 for \<open>nprocs \<le> 1\<close>: organise, then clean the output directory in place.\<close>

definition organize_and_clean :: "world \<Rightarrow> task list \<Rightarrow> fs \<Rightarrow> unit result \<times> message list \<times> fs" where
  "organize_and_clean w tasks t =
     (case dispatch_serial w tasks t of
        (Raised, log, t') \<Rightarrow> (Raised, log, t')
      | (Returned u, log, t') \<Rightarrow> (Returned (), log, remove_invalid_files_and_empty_dirs w t'))"

section \<open>Example environments\<close>

text \<open>A world in which every call succeeds and every archive holds one DICOM file and one text file.\<close>

definition fine_world :: world where
  "fine_world =
     \<lparr> can_mkdir = (\<lambda>p. True), can_copy = (\<lambda>p. True),
       unzip = (\<lambda>p. Unzipped [ZFile [''IM1.dcm''], ZFile [''notes.txt'']]),
       can_remove = (\<lambda>p. True), can_rmdir = (\<lambda>p. True),
       can_read = (\<lambda>ps. True), can_write = (\<lambda>p. True) \<rparr>"

text \<open>
  Stage-5 failures only: the sidecar cannot be copied and one DICOM file cannot be
  removed; the archive holds a second DICOM file in a subdirectory.
\<close>

definition degraded_world :: world where
  "degraded_world =
     \<lparr> can_mkdir = (\<lambda>p. True),
       can_copy = (\<lambda>p. p \<noteq> [''ISPY2-1001'', ''01-02-2003'', ''S1'', ''S1.json'']),
       unzip = (\<lambda>p. Unzipped [ZFile [''IM1.dcm''], ZFile [''sub'', ''IM2.DCM'']]),
       can_remove = (\<lambda>p. p \<noteq> [''ISPY2-1001'', ''01-02-2003'', ''S1'', ''IM1.dcm'']),
       can_rmdir = (\<lambda>p. True),
       can_read = (\<lambda>ps. True), can_write = (\<lambda>p. True) \<rparr>"

text \<open>The archive of the first unit is damaged after one member was written; every removal succeeds.\<close>

definition corrupt_world :: world where
  "corrupt_world =
     \<lparr> can_mkdir = (\<lambda>p. True), can_copy = (\<lambda>p. True),
       unzip = (\<lambda>p. if p = [''ISPY2-1001'', ''01-02-2003'', ''S1'', ''S1.zip'']
                     then BadZipFile [ZFile [''IM1.dcm'']]
                     else Unzipped [ZFile [''IM1.dcm'']]),
       can_remove = (\<lambda>p. True), can_rmdir = (\<lambda>p. True),
       can_read = (\<lambda>ps. True), can_write = (\<lambda>p. True) \<rparr>"

text \<open>A damaged archive, and the member already written cannot be removed again.\<close>

definition stuck_world :: world where
  "stuck_world =
     \<lparr> can_mkdir = (\<lambda>p. True), can_copy = (\<lambda>p. True),
       unzip = (\<lambda>p. BadZipFile [ZFile [''IM1.dcm'']]),
       can_remove = (\<lambda>p. p \<noteq> [''ISPY2-1001'', ''01-02-2003'', ''S1'', ''IM1.dcm'']),
       can_rmdir = (\<lambda>p. True),
       can_read = (\<lambda>ps. True), can_write = (\<lambda>p. True) \<rparr>"

text \<open>The archive unpacks but holds no DICOM file.\<close>

definition no_dicom_world :: world where
  "no_dicom_world =
     \<lparr> can_mkdir = (\<lambda>p. True), can_copy = (\<lambda>p. True),
       unzip = (\<lambda>p. Unzipped [ZFile [''notes.txt'']]),
       can_remove = (\<lambda>p. True), can_rmdir = (\<lambda>p. True),
       can_read = (\<lambda>ps. True), can_write = (\<lambda>p. True) \<rparr>"

text \<open>No file can be copied into the output directory.\<close>

definition no_copy_world :: world where
  "no_copy_world =
     \<lparr> can_mkdir = (\<lambda>p. True), can_copy = (\<lambda>p. False),
       unzip = (\<lambda>p. Unzipped [ZFile [''IM1.dcm'']]),
       can_remove = (\<lambda>p. True), can_rmdir = (\<lambda>p. True),
       can_read = (\<lambda>ps. True), can_write = (\<lambda>p. True) \<rparr>"

text \<open>The archive copy of the first unit cannot be removed (line 84 raises).\<close>

definition locked_zip_world :: world where
  "locked_zip_world =
     \<lparr> can_mkdir = (\<lambda>p. True), can_copy = (\<lambda>p. True),
       unzip = (\<lambda>p. Unzipped [ZFile [''IM1.dcm'']]),
       can_remove = (\<lambda>p. p \<noteq> [''ISPY2-1001'', ''01-02-2003'', ''S1'', ''S1.zip'']),
       can_rmdir = (\<lambda>p. True),
       can_read = (\<lambda>ps. True), can_write = (\<lambda>p. True) \<rparr>"

text \<open>The DICOM files of the first unit cannot be read as a series.\<close>

definition unreadable_world :: world where
  "unreadable_world =
     \<lparr> can_mkdir = (\<lambda>p. True), can_copy = (\<lambda>p. True),
       unzip = (\<lambda>p. Unzipped [ZFile [''IM1.dcm'']]),
       can_remove = (\<lambda>p. True), can_rmdir = (\<lambda>p. True),
       can_read = (\<lambda>ps. [''ISPY2-1001'', ''01-02-2003'', ''S1'', ''IM1.dcm''] \<notin> set ps),
       can_write = (\<lambda>p. True) \<rparr>"

text \<open>The NIfTI file of the first unit cannot be written.\<close>

definition unwritable_world :: world where
  "unwritable_world =
     \<lparr> can_mkdir = (\<lambda>p. True), can_copy = (\<lambda>p. True),
       unzip = (\<lambda>p. Unzipped [ZFile [''IM1.dcm'']]),
       can_remove = (\<lambda>p. True), can_rmdir = (\<lambda>p. True),
       can_read = (\<lambda>ps. True),
       can_write = (\<lambda>p. p \<noteq> [''ISPY2-1001'', ''01-02-2003'', ''S1'', ''S1.nii.gz'']) \<rparr>"

text \<open>A damaged archive whose copy cannot be removed (line 73 raises).\<close>

definition locked_corrupt_world :: world where
  "locked_corrupt_world =
     \<lparr> can_mkdir = (\<lambda>p. True), can_copy = (\<lambda>p. True),
       unzip = (\<lambda>p. BadZipFile [ZFile [''IM1.dcm'']]),
       can_remove = (\<lambda>p. p \<noteq> [''ISPY2-1001'', ''01-02-2003'', ''S1'', ''S1.zip'']),
       can_rmdir = (\<lambda>p. True),
       can_read = (\<lambda>ps. True), can_write = (\<lambda>p. True) \<rparr>"

text \<open>Everything succeeds except \<open>os.rmdir\<close> of the output root itself.\<close>

definition pinned_root_world :: world where
  "pinned_root_world =
     \<lparr> can_mkdir = (\<lambda>p. True), can_copy = (\<lambda>p. True),
       unzip = (\<lambda>p. Unzipped [ZFile [''IM1.dcm'']]),
       can_remove = (\<lambda>p. True), can_rmdir = (\<lambda>p. p \<noteq> []),
       can_read = (\<lambda>ps. True), can_write = (\<lambda>p. True) \<rparr>"

definition example_root :: fs where
  "example_root =
     Some (Dir [(''a'', Dir [(''x.txt'', File), (''sub'', Dir [])]),
                (''b'', Dir [(''S1.json'', File), (''S1.nii.gz'', File)]),
                (''LICENSE'', File)])"

section \<open>Predicates on trees used in the proofs\<close>

text \<open>Every regular file of the tree passes the allow-list test.\<close>

fun all_valid :: "fsnode \<Rightarrow> bool"
  and all_valid_in :: "(string \<times> fsnode) list \<Rightarrow> bool" where
  "all_valid File = True"
| "all_valid (Dir es) = all_valid_in es"
| "all_valid_in [] = True"
| "all_valid_in ((fname, File) # es) = (\<not> invalid_file fname \<and> all_valid_in es)"
| "all_valid_in ((d, Dir ds) # es) = (all_valid (Dir ds) \<and> all_valid_in es)"

text \<open>No directory of the tree is empty.\<close>

fun no_empty_dir :: "fsnode \<Rightarrow> bool"
  and no_empty_dir_in :: "(string \<times> fsnode) list \<Rightarrow> bool" where
  "no_empty_dir File = True"
| "no_empty_dir (Dir es) = (es \<noteq> [] \<and> no_empty_dir_in es)"
| "no_empty_dir_in [] = True"
| "no_empty_dir_in ((n, c) # es) = (no_empty_dir c \<and> no_empty_dir_in es)"

section \<open>Messages and cases of a run\<close>

text \<open>The warnings after which \<open>process_series\<close> returns without a result.\<close>

definition skip_messages :: "message set" where
  "skip_messages = {CopyZipFailed, BadZip, UnzipFailed, NoDicomFound, ReadFailed, WriteFailed}"

text \<open>The warnings of the unzip and conversion steps, each followed by the rollback.\<close>

definition rollback_messages :: "message set" where
  "rollback_messages = {BadZip, UnzipFailed, NoDicomFound, ReadFailed, WriteFailed}"

text \<open>
  The run got past the conversion: the archive copy is gone, DICOM files were found and
  read, the NIfTI file was written, and the last part of the function produced the result.
\<close>

definition reached_finalize :: "world \<Rightarrow> task \<Rightarrow> task option result \<Rightarrow> message list \<Rightarrow> fs \<Rightarrow> bool" where
  "reached_finalize w task r log t' =
     (case task of (p, d, s) \<Rightarrow>
        (\<exists>t5 t6. lookup [p, d, s, s @ ''.zip''] t5 = None
           \<and> collect_dcm [p, d, s] t5 \<noteq> []
           \<and> sitk_WriteImage w [p, d, s, s @ ''.nii.gz''] t5 = Some t6
           \<and> finalize_series w (p, d, s) (collect_dcm [p, d, s] t5) t6 = (r, log, t')))"

text \<open>The four ways a run of \<open>process_series\<close> can end.\<close>

definition series_cases :: "world \<Rightarrow> task \<Rightarrow> task option result \<Rightarrow> message list \<Rightarrow> fs \<Rightarrow> bool" where
  "series_cases w task r log t' =
     (r = Raised
       \<or> (r = Returned None \<and> log = [CopyZipFailed])
       \<or> (r = Returned None \<and> (\<exists>m. log = [m] \<and> m \<in> rollback_messages)
            \<and> (\<exists>t0. is_dir (lookup [fst task, fst (snd task), snd (snd task)] t0)
                  \<and> t' = shutil_rmtree w [fst task, fst (snd task), snd (snd task)] t0))
       \<or> reached_finalize w task r log t')"

section \<open>The Sanitizer: what one sweep leaves, and a second sweep\<close>

lemma remove_invalid_all_valid:
  assumes "\<And>q. can_remove w q"
  shows "all_valid (remove_invalid_files w p n)"
    and "all_valid_in (remove_invalid_in w p es)"
  using assms
  by (induction w p n and w p es rule: remove_invalid_files_remove_invalid_in.induct) auto

lemma remove_invalid_fixed:
  shows "all_valid n \<Longrightarrow> remove_invalid_files w p n = n"
    and "all_valid_in es \<Longrightarrow> remove_invalid_in w p es = es"
  by (induction w p n and w p es rule: remove_invalid_files_remove_invalid_in.induct) auto

lemma remove_empty_all_valid:
  shows "all_valid n \<Longrightarrow> remove_empty_dirs w p n = Some n' \<Longrightarrow> all_valid n'"
    and "all_valid_in es \<Longrightarrow> all_valid_in (remove_empty_in w p es)"
  by (induction w p n and w p es arbitrary: n' rule: remove_empty_dirs_remove_empty_in.induct)
     (auto simp: Let_def split: if_splits option.splits)

lemma remove_empty_no_empty:
  assumes "\<And>q. can_rmdir w q"
  shows "remove_empty_dirs w p n = Some n' \<Longrightarrow> no_empty_dir n'"
    and "no_empty_dir_in (remove_empty_in w p es)"
  using assms
  by (induction w p n and w p es arbitrary: n' rule: remove_empty_dirs_remove_empty_in.induct)
     (auto simp: Let_def split: if_splits option.splits)

lemma remove_empty_fixed:
  shows "no_empty_dir n \<Longrightarrow> remove_empty_dirs w p n = Some n"
    and "no_empty_dir_in es \<Longrightarrow> remove_empty_in w p es = es"
  by (induction w p n and w p es rule: remove_empty_dirs_remove_empty_in.induct)
     (auto simp: Let_def split: if_splits option.splits)

text \<open>
  Claim C8. When every removal of a first sweep succeeded, a second sweep of the tree it
  left removes no file and no directory, whatever the system would allow the second
  time: the tree is returned unchanged.
\<close>

theorem sanitizer_idempotent:
  assumes rm: "\<forall>q. can_remove w q" and rd: "\<forall>q. can_rmdir w q"
  shows "remove_invalid_files_and_empty_dirs w' (remove_invalid_files_and_empty_dirs w root)
         = remove_invalid_files_and_empty_dirs w root"
proof (cases root)
  case None
  then show ?thesis by (simp add: remove_invalid_files_and_empty_dirs_def)
next
  case (Some n)
  let ?m = "remove_invalid_files w [] n"
  have v: "all_valid ?m" using rm by (simp add: remove_invalid_all_valid)
  show ?thesis
  proof (cases "remove_empty_dirs w [] ?m")
    case None
    with Some show ?thesis by (simp add: remove_invalid_files_and_empty_dirs_def)
  next
    case (Some n')
    have "all_valid n'" using v Some by (rule remove_empty_all_valid(1))
    then have a: "remove_invalid_files w' [] n' = n'" by (rule remove_invalid_fixed(1))
    have "no_empty_dir n'" by (rule remove_empty_no_empty(1) [OF _ Some]) (simp add: rd)
    then have b: "remove_empty_dirs w' [] n' = Some n'" by (rule remove_empty_fixed(1))
    from \<open>root = Some n\<close> Some a b show ?thesis
      by (simp add: remove_invalid_files_and_empty_dirs_def)
  qed
qed

theorem sanitizer_idempotent_witness:
  "remove_invalid_files_and_empty_dirs fine_world example_root
     = Some (Dir [(''b'', Dir [(''S1.json'', File)]), (''LICENSE'', File)])
   \<and> remove_invalid_files_and_empty_dirs fine_world
       (remove_invalid_files_and_empty_dirs fine_world example_root)
     = Some (Dir [(''b'', Dir [(''S1.json'', File)]), (''LICENSE'', File)])"
proof -
  have rm: "\<forall>q. can_remove fine_world q" by (simp add: fine_world_def)
  have rd: "\<forall>q. can_rmdir fine_world q" by (simp add: fine_world_def)
  have first: "remove_invalid_files_and_empty_dirs fine_world example_root
     = Some (Dir [(''b'', Dir [(''S1.json'', File)]), (''LICENSE'', File)])"
    by code_simp
  show ?thesis
    using sanitizer_idempotent [OF rm rd, of fine_world example_root] first by simp
qed

text \<open>
  Claim C10, as amended. The walk of the empty-directory pass ends with the output root
  itself: when the invalid-file pass leaves the root directory without any entry,
  \<open>os.rmdir\<close> is called on the root; the root is gone when the call succeeds and stays,
  empty, when the system refuses it.
\<close>

theorem sanitizer_root_rmdir:
  assumes "remove_invalid_files w [] (Dir es) = Dir []"
  shows "remove_invalid_files_and_empty_dirs w (Some (Dir es))
         = (if can_rmdir w [] then None else Some (Dir []))"
  using assms by (simp add: remove_invalid_files_and_empty_dirs_def)

theorem sanitizer_root_rmdir_witness:
  "remove_invalid_files fine_world [] (Dir [(''junk.txt'', File), (''S1.nii.gz'', File)]) = Dir []
   \<and> remove_invalid_files_and_empty_dirs fine_world
       (Some (Dir [(''junk.txt'', File), (''S1.nii.gz'', File)])) = None"
proof -
  have a: "remove_invalid_files fine_world [] (Dir [(''junk.txt'', File), (''S1.nii.gz'', File)]) = Dir []"
    by code_simp
  have b: "can_rmdir fine_world []" by (simp add: fine_world_def)
  show ?thesis using sanitizer_root_rmdir [OF a] a b by simp
qed

text \<open>
  The claim as stated fails when the system refuses to remove the root (the output
  directory lies in a directory the user may not write to, say): the exception is caught
  at line 167 and the empty root stays.
\<close>

theorem sanitizer_root_counterexample:
  "remove_invalid_files pinned_root_world [] (Dir [(''junk.txt'', File)]) = Dir []
   \<and> remove_invalid_files_and_empty_dirs pinned_root_world (Some (Dir [(''junk.txt'', File)]))
     = Some (Dir [])"
  by code_simp

section \<open>Suffixes of file names\<close>

lemma endswith_iff: "endswith s suf \<longleftrightarrow> (\<exists>pre. s = pre @ suf)"
proof
  assume "endswith s suf"
  then have "s = take (length s - length suf) s @ suf"
    by (metis append_take_drop_id endswith_def)
  then show "\<exists>pre. s = pre @ suf" ..
next
  assume "\<exists>pre. s = pre @ suf"
  then show "endswith s suf" by (auto simp: endswith_def)
qed

lemma endswith_last: "endswith s suf \<Longrightarrow> suf \<noteq> [] \<Longrightarrow> last s = last suf"
  by (auto simp: endswith_iff)

lemma lower_append: "lower (a @ b) = lower a @ lower b"
  by (simp add: lower_def)

lemma nii_gz_not_dcm: "\<not> endswith (lower (s @ ''.nii.gz'')) ''.dcm''"
proof
  assume "endswith (lower (s @ ''.nii.gz'')) ''.dcm''"
  from endswith_last [OF this] show False
    by (simp add: lower_append) (simp add: lower_def lower_char_def)
qed

lemma json_not_dcm: "\<not> endswith (lower (s @ ''.json'')) ''.dcm''"
proof
  assume "endswith (lower (s @ ''.json'')) ''.dcm''"
  from endswith_last [OF this] show False
    by (simp add: lower_append) (simp add: lower_def lower_char_def)
qed

section \<open>Looking up paths after an update\<close>


lemma map_of_put:
  "map_of (case v of None \<Rightarrow> AList.delete x es | Some c \<Rightarrow> AList.update x c es) y
     = (if y = x then v else map_of es y)"
  by (cases v) (simp_all add: AList.update_conv' AList.delete_conv')

lemma lookup_None [simp]: "lookup p None = None"
  by (cases p) simp_all

lemma lookup_File: "lookup p (Some File) = (if p = [] then Some File else None)"
  by (cases p) simp_all

lemma lookup_append: "lookup (p @ q) t = lookup q (lookup p t)"
proof (induction p arbitrary: t)
  case Nil
  show ?case by simp
next
  case (Cons x xs)
  show ?case
  proof (cases t)
    case None
    then show ?thesis by simp
  next
    case (Some n)
    then show ?thesis using Cons.IH by (cases n) (simp_all)
  qed
qed

lemma alter_None [simp]: "alter (x # xs) f None = None"
  by simp

lemma lookup_alter_same:
  assumes "f None = None \<or> p = [] \<or> is_dir (lookup (butlast p) t)"
  shows "lookup p (alter p f t) = f (lookup p t)"
  using assms
proof (induction p arbitrary: t)
  case Nil
  show ?case by simp
next
  case (Cons x xs)
  show ?case
  proof (cases t)
    case None
    with Cons.prems show ?thesis by (cases xs) auto
  next
    case (Some n)
    show ?thesis
    proof (cases n)
      case File
      with Some Cons.prems show ?thesis by (cases xs) auto
    next
      case (Dir es)
      have "f None = None \<or> xs = [] \<or> is_dir (lookup (butlast xs) (map_of es x))"
        using Cons.prems Some Dir by (cases xs) auto
      from Cons.IH [OF this] Some Dir show ?thesis
        by (simp add: map_of_put)
    qed
  qed
qed

lemma lookup_alter_file_kept:
  assumes "lookup q t = Some File" and "\<not> prefix p q"
  shows "lookup q (alter p f t) = Some File"
  using assms
proof (induction p arbitrary: q t)
  case Nil
  then show ?case by simp
next
  case (Cons x xs)
  show ?case
  proof (cases q)
    case Nil
    with Cons.prems show ?thesis by simp
  next
    case (Cons y ys)
    note q = this
    show ?thesis
    proof (cases t)
      case None
      with Cons.prems q show ?thesis by simp
    next
      case (Some n)
      show ?thesis
      proof (cases n)
        case File
        with Some Cons.prems q show ?thesis by simp
      next
        case (Dir es)
        show ?thesis
        proof (cases "y = x")
          case True
          with Cons.prems q Some Dir have "lookup ys (map_of es x) = Some File" "\<not> prefix xs ys"
            by simp_all
          from Cons.IH [OF this] True q Some Dir show ?thesis by (simp add: map_of_put)
        next
          case False
          with Cons.prems q Some Dir show ?thesis by (simp add: map_of_put)
        qed
      qed
    qed
  qed
qed

lemma lookup_remove_stays_None:
  assumes "lookup q t = None"
  shows "lookup q (alter p (\<lambda>n. None) t) = None"
  using assms
proof (induction p arbitrary: q t)
  case Nil
  then show ?case by simp
next
  case (Cons x xs)
  show ?case
  proof (cases t)
    case None
    then show ?thesis by simp
  next
    case (Some n)
    show ?thesis
    proof (cases n)
      case File
      with Some Cons.prems show ?thesis by simp
    next
      case (Dir es)
      show ?thesis
      proof (cases q)
        case Nil
        with Cons.prems Some show ?thesis by simp
      next
        case (Cons y ys)
        with Cons.prems Some Dir Cons.IH [of ys "map_of es x"] show ?thesis
          by (auto simp add: map_of_put)
      qed
    qed
  qed
qed

lemma lookup_write_stays_None:
  assumes "lookup q t = None" and "q \<noteq> p"
  shows "lookup q (alter p (\<lambda>n. Some File) t) = None"
  using assms
proof (induction p arbitrary: q t)
  case Nil
  then show ?case by (cases q) simp_all
next
  case (Cons x xs)
  show ?case
  proof (cases t)
    case None
    then show ?thesis by simp
  next
    case (Some n)
    show ?thesis
    proof (cases n)
      case File
      with Some Cons.prems show ?thesis by simp
    next
      case (Dir es)
      show ?thesis
      proof (cases q)
        case Nil
        with Cons.prems Some show ?thesis by simp
      next
        case (Cons y ys)
        with Cons.prems Some Dir Cons.IH [of ys "map_of es x"] show ?thesis
          by (auto simp add: map_of_put)
      qed
    qed
  qed
qed

lemma file_not_prefix:
  assumes "lookup p t = Some File" and "lookup q t = Some File" and "p \<noteq> q"
  shows "\<not> prefix p q"
proof
  assume "prefix p q"
  then obtain r where r: "q = p @ r" by (auto simp: prefix_def)
  with assms(3) have "r \<noteq> []" by auto
  with assms(1,2) r show False by (simp add: lookup_append lookup_File)
qed

lemma os_remove_Some:
  assumes "os_remove w p t = Some t'"
  shows "lookup p t = Some File" and "can_remove w p" and "t' = alter p (\<lambda>n. None) t" and "lookup p t' = None"
  using assms by (auto simp: os_remove_def lookup_alter_same split: if_splits)

lemma os_remove_keeps_file:
  assumes "os_remove w p t = Some t'" and "lookup q t = Some File" and "q \<noteq> p"
  shows "lookup q t' = Some File"
proof -
  have "\<not> prefix p q" using os_remove_Some(1) [OF assms(1)] assms(2,3) by (metis file_not_prefix)
  with assms(2) os_remove_Some(3) [OF assms(1)] show ?thesis by (simp add: lookup_alter_file_kept)
qed

lemma os_remove_keeps_None:
  assumes "os_remove w p t = Some t'" and "lookup q t = None"
  shows "lookup q t' = None"
  using os_remove_Some(3) [OF assms(1)] assms(2) by (simp add: lookup_remove_stays_None)

lemma write_file_Some:
  assumes "write_file p t = Some t'"
  shows "t' = alter p (\<lambda>n. Some File) t" and "lookup p t' = Some File" and "\<not> is_dir (lookup p t)"
  using assms by (auto simp: write_file_def lookup_alter_same split: if_splits)

lemma not_is_dir: "\<not> is_dir n \<longleftrightarrow> n = None \<or> n = Some File"
  by (cases n rule: is_dir.cases) simp_all

lemma write_file_keeps_file:
  assumes "write_file p t = Some t'" and "lookup q t = Some File"
  shows "lookup q t' = Some File"
proof (cases "q = p")
  case True
  with write_file_Some(2) [OF assms(1)] show ?thesis by simp
next
  case False
  have "\<not> prefix p q"
  proof
    assume "prefix p q"
    then obtain r where r: "q = p @ r" by (auto simp: prefix_def)
    with False have "r \<noteq> []" by auto
    moreover have "lookup p t = None \<or> lookup p t = Some File"
      using write_file_Some(3) [OF assms(1)] by (simp add: not_is_dir)
    ultimately have "lookup q t = None" using r by (auto simp: lookup_append lookup_File)
    with assms(2) show False by simp
  qed
  with assms(2) write_file_Some(1) [OF assms(1)] show ?thesis by (simp add: lookup_alter_file_kept)
qed

lemma write_file_keeps_None:
  assumes "write_file p t = Some t'" and "lookup q t = None" and "q \<noteq> p"
  shows "lookup q t' = None"
  using write_file_Some(1) [OF assms(1)] assms(2,3) by (simp add: lookup_write_stays_None)

lemma lookup_alter_dir_kept:
  assumes "is_dir (lookup q t)" and "\<not> prefix p q"
  shows "is_dir (lookup q (alter p f t))"
  using assms
proof (induction p arbitrary: q t)
  case Nil
  then show ?case by simp
next
  case (Cons x xs)
  from Cons.prems(1) obtain n where t: "t = Some n" by (cases t) auto
  show ?case
  proof (cases n)
    case File
    with t Cons.prems show ?thesis by (cases q) simp_all
  next
    case (Dir es)
    show ?thesis
    proof (cases q)
      case Nil
      with t Dir show ?thesis by simp
    next
      case (Cons y ys)
      with Cons.prems t Dir Cons.IH [of ys "map_of es x"] show ?thesis
        by (auto simp add: map_of_put)
    qed
  qed
qed

lemma not_dir_not_prefix:
  assumes "\<not> is_dir (lookup p t)" and "is_dir (lookup q t)"
  shows "\<not> prefix p q"
proof
  assume "prefix p q"
  then obtain r where r: "q = p @ r" by (auto simp: prefix_def)
  from assms(1) have "lookup p t = None \<or> lookup p t = Some File" by (simp add: not_is_dir)
  then have "\<not> is_dir (lookup r (lookup p t))" by (cases r) auto
  with assms(2) r show False by (simp add: lookup_append)
qed

lemma write_file_keeps_dir:
  assumes "write_file p t = Some t'" and "is_dir (lookup q t)"
  shows "is_dir (lookup q t')"
proof -
  have "\<not> prefix p q" using write_file_Some(3) [OF assms(1)] assms(2) by (rule not_dir_not_prefix)
  with assms(2) write_file_Some(1) [OF assms(1)] show ?thesis by (simp add: lookup_alter_dir_kept)
qed

lemma os_remove_keeps_dir:
  assumes "os_remove w p t = Some t'" and "is_dir (lookup q t)"
  shows "is_dir (lookup q t')"
proof -
  have "\<not> is_dir (lookup p t)" using os_remove_Some(1) [OF assms(1)] by simp
  then have "\<not> prefix p q" using assms(2) by (rule not_dir_not_prefix)
  with assms(2) os_remove_Some(3) [OF assms(1)] show ?thesis by (simp add: lookup_alter_dir_kept)
qed

lemma shutil_copy2_keeps_dir:
  assumes "shutil_copy2 w name dst t = Some t'" and "is_dir (lookup q t)"
  shows "is_dir (lookup q t')"
  using assms by (auto simp: shutil_copy2_def split: if_splits intro: write_file_keeps_dir)

lemma makedirs_keeps_dir:
  assumes "makedirs p t = Some n" and "is_dir (lookup q t)"
  shows "is_dir (lookup q (Some n))"
  using assms
proof (induction p t arbitrary: q n rule: makedirs.induct)
  case (1 p)
  then show ?case by simp
next
  case 2
  then show ?case by simp
next
  case (3 es)
  then show ?case by simp
next
  case (4 x xs)
  then show ?case by simp
next
  case (5 x xs es)
  from "5.prems"(1) obtain c where c: "makedirs xs (map_of es x) = Some c"
    and n: "n = Dir (AList.update x c es)" by auto
  show ?case
  proof (cases q)
    case Nil
    with n show ?thesis by simp
  next
    case (Cons y ys)
    show ?thesis
    proof (cases "y = x")
      case True
      with "5.prems"(2) Cons have "is_dir (lookup ys (map_of es x))" by simp
      from "5.IH" [OF c this] True Cons n show ?thesis by (simp add: AList.update_conv')
    next
      case False
      with "5.prems"(2) Cons n show ?thesis by (simp add: AList.update_conv')
    qed
  qed
qed

lemma makedirs_is_dir:
  assumes "makedirs p t = Some n"
  shows "is_dir (lookup p (Some n))"
  using assms
proof (induction p t arbitrary: n rule: makedirs.induct)
  case (1 p)
  then show ?case by simp
next
  case 2
  then show ?case by auto
next
  case (3 es)
  then show ?case by auto
next
  case (4 x xs)
  then show ?case by auto
next
  case (5 x xs es)
  then show ?case by (auto simp: AList.update_conv')
qed

lemma os_makedirs_is_dir:
  assumes "os_makedirs w p t = Some t'"
  shows "is_dir (lookup p t')"
  using assms by (auto simp: os_makedirs_def split: if_splits dest: makedirs_is_dir)

lemma extract_member_keeps_dir:
  assumes "extract_member base m t = Some t'" and "is_dir (lookup q t)"
  shows "is_dir (lookup q t')"
proof (cases m)
  case (ZDir rel)
  with assms show ?thesis by (auto dest: makedirs_keeps_dir)
next
  case (ZFile rel)
  with assms obtain n where n: "makedirs (base @ butlast rel) t = Some n"
    and wf: "write_file (base @ rel) (Some n) = Some t'"
    by (auto split: option.splits)
  from makedirs_keeps_dir [OF n assms(2)] have "is_dir (lookup q (Some n))" .
  with wf show ?thesis by (rule write_file_keeps_dir)
qed

lemma extractall_keeps_dir:
  assumes "extractall base ms t = (t', ok)" and "is_dir (lookup q t)"
  shows "is_dir (lookup q t')"
  using assms
proof (induction ms arbitrary: t)
  case Nil
  then show ?case by simp
next
  case (Cons m ms)
  show ?case
  proof (cases "extract_member base m t")
    case None
    with Cons.prems show ?thesis by simp
  next
    case (Some t1)
    with Cons.prems have "extractall base ms t1 = (t', ok)" by simp
    from Cons.IH [OF this extract_member_keeps_dir [OF Some Cons.prems(2)]] show ?thesis .
  qed
qed

lemma nifti_conversion_cases:
  assumes "nifti_conversion w (p, d, s) t = (r, log, t')"
  shows "(r = Returned None \<and> (\<exists>m. log = [m] \<and> m \<in> rollback_messages)
           \<and> t' = shutil_rmtree w [p, d, s] t)
       \<or> (\<exists>t1. collect_dcm [p, d, s] t \<noteq> []
             \<and> sitk_WriteImage w [p, d, s, s @ ''.nii.gz''] t = Some t1
             \<and> finalize_series w (p, d, s) (collect_dcm [p, d, s] t) t1 = (r, log, t'))"
  using assms
  by (auto simp: nifti_conversion_def rollback_def rollback_messages_def Let_def
           split: if_splits option.splits)

lemma unzip_failed_cases:
  assumes "unzip_failed w z sd [m] t = (r, log, t')" and "is_dir (lookup sd t)"
  shows "r = Raised
       \<or> (r = Returned None \<and> log = [m]
            \<and> (\<exists>t0. is_dir (lookup sd t0) \<and> t' = shutil_rmtree w sd t0))"
  using assms
  by (auto simp: unzip_failed_def rollback_def split: option.splits dest: os_remove_keeps_dir)

lemma process_series_cases:
  assumes "process_series w (p, d, s) t = (r, log, t')"
  shows "series_cases w (p, d, s) r log t'"
proof -
  let ?sd = "[p, d, s]" and ?z = "[p, d, s, s @ ''.zip'']"
  let ?goal = "series_cases w (p, d, s) r log t'"
  have uf: ?goal
    if "unzip_failed w ?z ?sd [m] t0 = (r, log, t')" "m \<in> rollback_messages"
       "is_dir (lookup ?sd t0)" for m t0
    using unzip_failed_cases [OF that(1,3)] that(2) by (auto simp: series_cases_def)
  have nc: ?goal
    if "nifti_conversion w (p, d, s) t5 = (r, log, t')" "os_remove w ?z t4 = Some t5"
       "is_dir (lookup ?sd t4)" for t4 t5
    using nifti_conversion_cases [OF that(1)] os_remove_Some(4) [OF that(2)]
      os_remove_keeps_dir [OF that(2,3)]
    by (auto simp: reached_finalize_def series_cases_def)
  have bz: "BadZip \<in> rollback_messages" "UnzipFailed \<in> rollback_messages"
    by (simp_all add: rollback_messages_def)
  have r1: "series_cases w (p, d, s) Raised l x" for l x by (simp add: series_cases_def)
  have r2: "series_cases w (p, d, s) (Returned None) [CopyZipFailed] x" for x
    by (simp add: series_cases_def)
  show ?goal
  proof (cases "os_makedirs w [p, d] t")
    case None
    with assms show ?thesis by (simp add: process_series_def Let_def r1)
  next
    case t1: (Some t1)
    show ?thesis
    proof (cases "os_makedirs w ?sd t1")
      case None
      with assms t1 show ?thesis by (simp add: process_series_def Let_def r1)
    next
      case t2: (Some t2)
      have d2: "is_dir (lookup ?sd t2)" by (rule os_makedirs_is_dir [OF t2])
      show ?thesis
      proof (cases "shutil_copy2 w (s @ ''.zip'') ?z t2")
        case None
        with assms t1 t2 show ?thesis by (auto simp: process_series_def Let_def r2)
      next
        case t3: (Some t3)
        have d3: "is_dir (lookup ?sd t3)" by (rule shutil_copy2_keeps_dir [OF t3 d2])
        have d4: "is_dir (lookup ?sd t4)" if "extractall ?sd ms t3 = (t4, ok)" for ms t4 ok
          using that d3 by (rule extractall_keeps_dir)
        from assms t1 t2 t3 show ?thesis
          by (auto simp: process_series_def Let_def r1
                split: if_splits unzip_outcome.splits prod.splits option.splits
                intro: uf nc bz d3 d4)
      qed
    qed
  qed
qed

section \<open>The DICOM files of a series directory\<close>

lemma collect_dcm_names:
  assumes "q \<in> set (collect_dcm sd t)"
  shows "q \<noteq> [] \<and> endswith (lower (last q)) ''.dcm''"
  using assms by (auto simp: collect_dcm_def split: option.splits)

lemma os_walk_finds_file:
  assumes "lookup rel (Some n) = Some File" and "rel \<noteq> []"
  shows "\<exists>dirs files. (base @ butlast rel, dirs, files) \<in> set (os_walk base n) \<and> last rel \<in> set files"
  using assms
proof (induction rel arbitrary: base n)
  case Nil
  then show ?case by simp
next
  case (Cons x xs)
  from Cons.prems(1) obtain es where n: "n = Dir es" by (cases n) simp_all
  show ?case
  proof (cases xs)
    case Nil
    with Cons.prems n have "map_of es x = Some File" by simp
    then have "(x, File) \<in> set es" by (rule map_of_SomeD)
    then have "x \<in> set (map fst (filter (\<lambda>e. snd e = File) es))" by force
    with Nil have a: "last (x # xs) \<in> set (map fst (filter (\<lambda>e. snd e = File) es))" by simp
    have b: "(base @ butlast (x # xs), map fst (filter (\<lambda>e. snd e \<noteq> File) es),
              map fst (filter (\<lambda>e. snd e = File) es)) \<in> set (os_walk base n)"
      using n Nil by simp
    from a b show ?thesis by blast
  next
    case (Cons y ys)
    with Cons.prems n obtain c where c: "map_of es x = Some c" "lookup xs (Some c) = Some File"
      by (cases "map_of es x") auto
    from c(1) have mem: "(x, c) \<in> set es" by (rule map_of_SomeD)
    from Cons.IH [OF c(2), of "base @ [x]"] Cons
    obtain dirs files where
      "((base @ [x]) @ butlast xs, dirs, files) \<in> set (os_walk (base @ [x]) c)" "last xs \<in> set files"
      by auto
    then have "(base @ butlast (x # xs), dirs, files) \<in> set (os_walk base n)"
      "last (x # xs) \<in> set files"
      using mem Cons n by (auto intro!: bexI [of _ "(x, c)"])
    then show ?thesis by blast
  qed
qed

lemma collect_dcm_complete:
  assumes "lookup (sd @ rel) t = Some File" and "rel \<noteq> []" and "endswith (lower (last rel)) ''.dcm''"
  shows "sd @ rel \<in> set (collect_dcm sd t)"
proof -
  from assms(1) have l: "lookup rel (lookup sd t) = Some File" by (simp add: lookup_append)
  with assms(2) obtain n where n: "lookup sd t = Some n" by (cases "lookup sd t") auto
  from os_walk_finds_file [OF l [unfolded n] assms(2), of sd]
  obtain dirs files where w: "(sd @ butlast rel, dirs, files) \<in> set (os_walk sd n)" "last rel \<in> set files"
    by auto
  have "sd @ rel = (sd @ butlast rel) @ [last rel]" using assms(2) by simp
  with w assms(3) n show ?thesis
    by (auto simp: collect_dcm_def intro!: bexI [of _ "(sd @ butlast rel, dirs, files)"])
qed

lemma lookup_remove_reflects_file:
  assumes "lookup q (alter p (\<lambda>n. None) t) = Some File"
  shows "lookup q t = Some File"
  using assms
proof (induction p arbitrary: q t)
  case Nil
  then show ?case by simp
next
  case (Cons x xs)
  show ?case
  proof (cases t)
    case None
    with Cons.prems show ?thesis by simp
  next
    case (Some n)
    show ?thesis
    proof (cases n)
      case File
      with Some Cons.prems show ?thesis by simp
    next
      case (Dir es)
      show ?thesis
      proof (cases q)
        case Nil
        with Cons.prems Some Dir show ?thesis by simp
      next
        case (Cons y ys)
        with Cons.prems Some Dir Cons.IH [of ys "map_of es x"] show ?thesis
          by (auto simp add: map_of_put split: if_splits)
      qed
    qed
  qed
qed

lemma lookup_write_reflects_file:
  assumes "lookup q (alter p (\<lambda>n. Some File) t) = Some File" and "q \<noteq> p"
  shows "lookup q t = Some File"
  using assms
proof (induction p arbitrary: q t)
  case Nil
  then show ?case by (cases q) simp_all
next
  case (Cons x xs)
  show ?case
  proof (cases t)
    case None
    with Cons.prems show ?thesis by simp
  next
    case (Some n)
    show ?thesis
    proof (cases n)
      case File
      with Some Cons.prems show ?thesis by simp
    next
      case (Dir es)
      show ?thesis
      proof (cases q)
        case Nil
        with Cons.prems Some Dir show ?thesis by simp
      next
        case (Cons y ys)
        with Cons.prems Some Dir Cons.IH [of ys "map_of es x"] show ?thesis
          by (auto simp add: map_of_put split: if_splits)
      qed
    qed
  qed
qed

lemma remove_dcm_keeps_file:
  assumes "remove_dcm_files w ds t = (log, t')" and "lookup q t = Some File" and "q \<notin> set ds"
  shows "lookup q t' = Some File"
  using assms
proof (induction ds arbitrary: t log)
  case Nil
  then show ?case by simp
next
  case (Cons a ds)
  show ?case
  proof (cases "os_remove w a t")
    case None
    with Cons.prems obtain l where "remove_dcm_files w ds t = (l, t')"
      by (auto split: prod.splits)
    from Cons.IH [OF this] Cons.prems show ?thesis by simp
  next
    case (Some t1)
    with Cons.prems have r: "remove_dcm_files w ds t1 = (log, t')" by simp
    have "lookup q t1 = Some File" using os_remove_keeps_file [OF Some] Cons.prems by auto
    from Cons.IH [OF r this] Cons.prems show ?thesis by simp
  qed
qed

lemma remove_dcm_keeps_None:
  assumes "remove_dcm_files w ds t = (log, t')" and "lookup q t = None"
  shows "lookup q t' = None"
  using assms
proof (induction ds arbitrary: t log)
  case Nil
  then show ?case by simp
next
  case (Cons a ds)
  show ?case
  proof (cases "os_remove w a t")
    case None
    with Cons.prems obtain l where "remove_dcm_files w ds t = (l, t')"
      by (auto split: prod.splits)
    from Cons.IH [OF this] Cons.prems show ?thesis by simp
  next
    case (Some t1)
    with Cons.prems have r: "remove_dcm_files w ds t1 = (log, t')" by simp
    from Cons.IH [OF r os_remove_keeps_None [OF Some Cons.prems(2)]] show ?thesis .
  qed
qed

lemma remove_dcm_reflects_file:
  assumes "remove_dcm_files w ds t = (log, t')" and "lookup q t' = Some File"
  shows "lookup q t = Some File"
  using assms
proof (induction ds arbitrary: t log)
  case Nil
  then show ?case by simp
next
  case (Cons a ds)
  show ?case
  proof (cases "os_remove w a t")
    case None
    with Cons.prems obtain l where "remove_dcm_files w ds t = (l, t')"
      by (auto split: prod.splits)
    from Cons.IH [OF this] Cons.prems show ?thesis by simp
  next
    case (Some t1)
    with Cons.prems have r: "remove_dcm_files w ds t1 = (log, t')" by simp
    from Cons.IH [OF r Cons.prems(2)] have "lookup q t1 = Some File" .
    with os_remove_Some(3) [OF Some] show ?thesis
      by (simp add: lookup_remove_reflects_file)
  qed
qed

lemma remove_dcm_log:
  assumes "remove_dcm_files w ds t = (log, t')"
  shows "set log \<subseteq> RemoveDicomFailed ` set ds"
  using assms
proof (induction ds arbitrary: t log)
  case Nil
  then show ?case by simp
next
  case (Cons a ds)
  show ?case
  proof (cases "os_remove w a t")
    case None
    with Cons.prems obtain l where l: "remove_dcm_files w ds t = (l, t')" "log = RemoveDicomFailed a # l"
      by (auto split: prod.splits)
    from Cons.IH [OF l(1)] l(2) show ?thesis by auto
  next
    case (Some t1)
    with Cons.prems have r: "remove_dcm_files w ds t1 = (log, t')" by simp
    from Cons.IH [OF r] show ?thesis by auto
  qed
qed

lemma remove_dcm_failed_logged:
  assumes "remove_dcm_files w ds t = (log, t')" and "q \<in> set ds" and "lookup q t' = Some File"
  shows "RemoveDicomFailed q \<in> set log"
  using assms
proof (induction ds arbitrary: t log)
  case Nil
  then show ?case by simp
next
  case (Cons a ds)
  show ?case
  proof (cases "os_remove w a t")
    case None
    with Cons.prems obtain l where l: "remove_dcm_files w ds t = (l, t')" "log = RemoveDicomFailed a # l"
      by (auto split: prod.splits)
    show ?thesis
    proof (cases "q = a")
      case True
      with l(2) show ?thesis by simp
    next
      case False
      with Cons.prems have "q \<in> set ds" by simp
      from Cons.IH [OF l(1) this Cons.prems(3)] l(2) show ?thesis by simp
    qed
  next
    case (Some t1)
    with Cons.prems have r: "remove_dcm_files w ds t1 = (log, t')" by simp
    show ?thesis
    proof (cases "q = a")
      case True
      have "lookup q t1 = None" using os_remove_Some(4) [OF Some] True by simp
      from remove_dcm_keeps_None [OF r this] Cons.prems(3) show ?thesis by simp
    next
      case False
      with Cons.prems have "q \<in> set ds" by simp
      from Cons.IH [OF r this Cons.prems(3)] show ?thesis .
    qed
  qed
qed

lemma shutil_copy2_Some:
  assumes "shutil_copy2 w name dst t = Some t'"
  shows "write_file dst t = Some t' \<or> write_file (dst @ [name]) t = Some t'"
  using assms by (auto simp: shutil_copy2_def split: if_splits)

section \<open>The last part of process_series\<close>

lemma finalize_series_facts:
  assumes fin: "finalize_series w (p, d, s) ds t = (r, log, t')"
    and nif: "lookup [p, d, s, s @ ''.nii.gz''] t = Some File"
    and zip: "lookup [p, d, s, s @ ''.zip''] t = None"
    and names0: "\<forall>q \<in> set ds. q \<noteq> [] \<and> endswith (lower (last q)) ''.dcm''"
  shows "r = Returned (Some (p, d, s))"
    and "lookup [p, d, s, s @ ''.nii.gz''] t' = Some File"
    and "lookup [p, d, s, s @ ''.zip''] t' = None"
    and "log \<noteq> [] \<and> last log = FinishedSeries \<and> set log \<inter> skip_messages = {}"
    and "CopyJsonFailed \<notin> set log \<Longrightarrow>
           lookup [p, d, s, s @ ''.json''] t' = Some File
         \<or> lookup [p, d, s, s @ ''.json'', s @ ''.json''] t' = Some File"
    and "\<And>q. q \<noteq> [] \<Longrightarrow> endswith (lower (last q)) ''.dcm'' \<Longrightarrow> lookup q t' = Some File
           \<Longrightarrow> lookup q t = Some File \<and> (q \<in> set ds \<longrightarrow> RemoveDicomFailed q \<in> set log)"
proof -
  have names: "q \<noteq> [] \<and> endswith (lower (last q)) ''.dcm''" if "q \<in> set ds" for q
    using names0 that by blast
  let ?nif = "[p, d, s, s @ ''.nii.gz'']" and ?zip = "[p, d, s, s @ ''.zip'']"
  let ?json = "[p, d, s, s @ ''.json'']"
  obtain log1 t1 where rd: "remove_dcm_files w ds t = (log1, t1)" by (cases "remove_dcm_files w ds t")
  have "?nif \<notin> set ds" using names [of ?nif] nii_gz_not_dcm [of s] by auto
  from remove_dcm_keeps_file [OF rd nif this] have nif1: "lookup ?nif t1 = Some File" .
  from remove_dcm_keeps_None [OF rd zip] have zip1: "lookup ?zip t1 = None" .
  have l1: "set log1 \<inter> skip_messages = {}" "CopyJsonFailed \<notin> set log1"
    using remove_dcm_log [OF rd] by (auto simp: skip_messages_def)
  have dcm1: "lookup q t = Some File \<and> (q \<in> set ds \<longrightarrow> RemoveDicomFailed q \<in> set log1)"
    if "lookup q t1 = Some File" for q
    using remove_dcm_reflects_file [OF rd that] remove_dcm_failed_logged [OF rd _ that] by blast
  show "r = Returned (Some (p, d, s))"
    using fin rd by (auto simp: finalize_series_def Let_def split: option.splits)
  have "lookup ?nif t' = Some File \<and> lookup ?zip t' = None
        \<and> (log \<noteq> [] \<and> last log = FinishedSeries \<and> set log \<inter> skip_messages = {})
        \<and> (CopyJsonFailed \<notin> set log \<longrightarrow>
              lookup ?json t' = Some File \<or> lookup (?json @ [s @ ''.json'']) t' = Some File)
        \<and> (\<forall>q. q \<noteq> [] \<longrightarrow> endswith (lower (last q)) ''.dcm'' \<longrightarrow> lookup q t' = Some File
              \<longrightarrow> lookup q t = Some File \<and> (q \<in> set ds \<longrightarrow> RemoveDicomFailed q \<in> set log))"
    (is ?all)
  proof (cases "shutil_copy2 w (s @ ''.json'') ?json t1")
    case None
    with fin rd have e: "log = log1 @ [CopyJsonFailed, FinishedSeries]" "t' = t1"
      by (auto simp: finalize_series_def Let_def)
    with nif1 zip1 l1 dcm1 show ?thesis by (auto simp: skip_messages_def)
  next
    case (Some t2)
    with fin rd have e: "log = log1 @ [FinishedSeries]" "t' = t2"
      by (auto simp: finalize_series_def Let_def)
    from shutil_copy2_Some [OF Some] obtain target where
      tg: "target = ?json \<or> target = ?json @ [s @ ''.json'']" and wf: "write_file target t1 = Some t2"
      by blast
    have a: "lookup ?nif t2 = Some File" by (rule write_file_keeps_file [OF wf nif1])
    have b: "lookup ?zip t2 = None" using tg by (intro write_file_keeps_None [OF wf zip1]) auto
    have c: "lookup ?json t2 = Some File \<or> lookup (?json @ [s @ ''.json'']) t2 = Some File"
      using write_file_Some(2) [OF wf] tg by auto
    have d: "lookup q t1 = Some File"
      if "q \<noteq> []" "endswith (lower (last q)) ''.dcm''" "lookup q t2 = Some File" for q
    proof -
      have "q \<noteq> target" using that(1,2) tg json_not_dcm [of s] by auto
      with that(3) write_file_Some(1) [OF wf] show ?thesis
        by (simp add: lookup_write_reflects_file)
    qed
    from a b c d e l1 dcm1 show ?thesis by (auto simp: skip_messages_def)
  qed
  then show "lookup ?nif t' = Some File" "lookup ?zip t' = None"
    "log \<noteq> [] \<and> last log = FinishedSeries \<and> set log \<inter> skip_messages = {}"
    "CopyJsonFailed \<notin> set log \<Longrightarrow>
           lookup ?json t' = Some File \<or> lookup [p, d, s, s @ ''.json'', s @ ''.json''] t' = Some File"
    "\<And>q. q \<noteq> [] \<Longrightarrow> endswith (lower (last q)) ''.dcm'' \<Longrightarrow> lookup q t' = Some File
           \<Longrightarrow> lookup q t = Some File \<and> (q \<in> set ds \<longrightarrow> RemoveDicomFailed q \<in> set log)"
    by simp_all
qed

lemma rmtree_all:
  shows "(\<And>q. prefix p q \<Longrightarrow> can_remove w q \<and> can_rmdir w q) \<Longrightarrow> rmtree_node w p n = None"
    and "(\<And>q. prefix p q \<Longrightarrow> can_remove w q \<and> can_rmdir w q) \<Longrightarrow> rmtree_in w p es = []"
proof (induction w p n and w p es rule: rmtree_node_rmtree_in.induct)
  case (1 w p)
  then show ?case by simp
next
  case (2 w p es)
  then show ?case by (simp add: Let_def)
next
  case (3 w p)
  then show ?case by simp
next
  case (4 w p n c es)
  have "rmtree_node w (p @ [n]) c = None"
    by (rule "4.IH"(1)) (meson "4.prems" append_prefixD)
  moreover from this have "rmtree_in w p es = []" by (rule "4.IH"(2)) (rule "4.prems")
  ultimately show ?case by simp
qed

lemma shutil_rmtree_gone:
  assumes "\<And>q. prefix p q \<Longrightarrow> can_remove w q \<and> can_rmdir w q" and "is_dir (lookup p t)"
  shows "lookup p (shutil_rmtree w p t) = None"
proof -
  from assms(2) obtain es where es: "lookup p t = Some (Dir es)"
    by (cases "lookup p t" rule: is_dir.cases) simp_all
  have "lookup p (shutil_rmtree w p t)
      = (case lookup p t of Some (Dir es) \<Rightarrow> rmtree_node w p (Dir es) | other \<Rightarrow> other)"
    unfolding shutil_rmtree_def by (rule lookup_alter_same) simp
  also have "\<dots> = rmtree_node w p (Dir es)" using es by simp
  also have "\<dots> = None" by (rule rmtree_all(1)) (rule assms(1))
  finally show ?thesis .
qed

lemma reached_finalize_facts:
  assumes "reached_finalize w (p, d, s) r log t'"
  shows "r = Returned (Some (p, d, s))"
    and "lookup [p, d, s, s @ ''.nii.gz''] t' = Some File"
    and "lookup [p, d, s, s @ ''.zip''] t' = None"
    and "log \<noteq> [] \<and> last log = FinishedSeries \<and> set log \<inter> skip_messages = {}"
    and "CopyJsonFailed \<notin> set log \<Longrightarrow>
           lookup [p, d, s, s @ ''.json''] t' = Some File
         \<or> lookup [p, d, s, s @ ''.json'', s @ ''.json''] t' = Some File"
    and "\<And>rel. rel \<noteq> [] \<Longrightarrow> endswith (lower (last rel)) ''.dcm''
           \<Longrightarrow> lookup ([p, d, s] @ rel) t' = Some File
           \<Longrightarrow> RemoveDicomFailed ([p, d, s] @ rel) \<in> set log"
proof -
  let ?sd = "[p, d, s]"
  let ?nif = "[p, d, s, s @ ''.nii.gz'']" and ?zip = "[p, d, s, s @ ''.zip'']"
  from assms obtain t5 t6 where
    z5: "lookup ?zip t5 = None" and
    wi: "sitk_WriteImage w ?nif t5 = Some t6" and
    fin: "finalize_series w (p, d, s) (collect_dcm ?sd t5) t6 = (r, log, t')"
    by (auto simp: reached_finalize_def)
  from wi have wf: "write_file ?nif t5 = Some t6"
    by (simp add: sitk_WriteImage_def split: if_splits)
  have n6: "lookup ?nif t6 = Some File" by (rule write_file_Some(2) [OF wf])
  have z6: "lookup ?zip t6 = None" by (rule write_file_keeps_None [OF wf z5]) simp
  have names: "\<forall>q \<in> set (collect_dcm ?sd t5). q \<noteq> [] \<and> endswith (lower (last q)) ''.dcm''"
    using collect_dcm_names by blast
  note ff = finalize_series_facts [OF fin n6 z6 names]
  show "r = Returned (Some (p, d, s))" by (rule ff(1))
  show "lookup ?nif t' = Some File" by (rule ff(2))
  show "lookup ?zip t' = None" by (rule ff(3))
  show "log \<noteq> [] \<and> last log = FinishedSeries \<and> set log \<inter> skip_messages = {}" by (rule ff(4))
  show "lookup [p, d, s, s @ ''.json''] t' = Some File
         \<or> lookup [p, d, s, s @ ''.json'', s @ ''.json''] t' = Some File"
    if "CopyJsonFailed \<notin> set log" using ff(5) [OF that] .
  show "RemoveDicomFailed (?sd @ rel) \<in> set log"
    if rel: "rel \<noteq> []" "endswith (lower (last rel)) ''.dcm''" "lookup (?sd @ rel) t' = Some File" for rel
  proof -
    have ne: "?sd @ rel \<noteq> []" by simp
    have la: "endswith (lower (last (?sd @ rel))) ''.dcm''" using rel(1,2) by simp
    from ff(6) [OF ne la rel(3)]
    have f6: "lookup (?sd @ rel) t6 = Some File"
      and lg: "?sd @ rel \<in> set (collect_dcm ?sd t5) \<longrightarrow> RemoveDicomFailed (?sd @ rel) \<in> set log"
      by blast+
    have "?sd @ rel \<noteq> ?nif"
    proof
      assume "?sd @ rel = ?nif"
      then have "rel = [s @ ''.nii.gz'']" by simp
      with rel(2) nii_gz_not_dcm [of s] show False by simp
    qed
    with f6 write_file_Some(1) [OF wf] have "lookup (?sd @ rel) t5 = Some File"
      by (simp add: lookup_write_reflects_file)
    from collect_dcm_complete [OF this rel(1,2)] lg show ?thesis by simp
  qed
qed

section \<open>Runs that skip or raise\<close>

text \<open>
  What \<open>os.makedirs\<close> and the extraction leave untouched, which warnings a run that
  raised can have printed, and when the \<open>os.remove\<close> of the unzip step cannot raise.
\<close>

lemma makedirs_lookup_other:
  assumes "makedirs p t = Some n" and "\<not> prefix q p"
  shows "lookup q (Some n) = lookup q t"
  using assms
proof (induction p t arbitrary: q n rule: makedirs.induct)
  case (1 p)
  then show ?case by simp
next
  case 2
  then show ?case by (cases q) auto
next
  case (3 es)
  then show ?case by simp
next
  case (4 x xs)
  from "4.prems"(1) obtain c where c: "makedirs xs None = Some c" and n: "n = Dir [(x, c)]"
    by auto
  from "4.prems"(2) obtain y ys where q: "q = y # ys" by (cases q) auto
  show ?case
  proof (cases "y = x")
    case True
    with "4.prems"(2) q have "\<not> prefix ys xs" by simp
    from "4.IH" [OF c this] True q n show ?thesis by simp
  next
    case False
    with q n show ?thesis by simp
  qed
next
  case (5 x xs es)
  from "5.prems"(1) obtain c where c: "makedirs xs (map_of es x) = Some c"
    and n: "n = Dir (AList.update x c es)" by auto
  from "5.prems"(2) obtain y ys where q: "q = y # ys" by (cases q) auto
  show ?case
  proof (cases "y = x")
    case True
    with "5.prems"(2) q have "\<not> prefix ys xs" by simp
    from "5.IH" [OF c this] True q n show ?thesis by (simp add: AList.update_conv')
  next
    case False
    with q n show ?thesis by (simp add: AList.update_conv')
  qed
qed

lemma os_makedirs_lookup_other:
  assumes "os_makedirs w p t = Some t'" and "\<not> prefix q p"
  shows "lookup q t' = lookup q t"
  using assms by (auto simp: os_makedirs_def split: if_splits dest: makedirs_lookup_other)

lemma makedirs_keeps_file:
  assumes "makedirs p t = Some n" and "lookup q t = Some File"
  shows "lookup q (Some n) = Some File"
  using assms
proof (induction p t arbitrary: q n rule: makedirs.induct)
  case (1 p)
  then show ?case by simp
next
  case 2
  then show ?case by simp
next
  case (3 es)
  then show ?case by simp
next
  case (4 x xs)
  then show ?case by simp
next
  case (5 x xs es)
  from "5.prems"(1) obtain c where c: "makedirs xs (map_of es x) = Some c"
    and n: "n = Dir (AList.update x c es)" by auto
  from "5.prems"(2) obtain y ys where q: "q = y # ys" by (cases q) auto
  show ?case
  proof (cases "y = x")
    case True
    with "5.prems"(2) q have "lookup ys (map_of es x) = Some File" by simp
    from "5.IH" [OF c this] True q n show ?thesis by (simp add: AList.update_conv')
  next
    case False
    with "5.prems"(2) q n show ?thesis by (simp add: AList.update_conv')
  qed
qed

lemma extract_member_keeps_file:
  assumes "extract_member base m t = Some t'" and "lookup q t = Some File"
  shows "lookup q t' = Some File"
proof (cases m)
  case (ZDir rel)
  with assms show ?thesis by (auto dest: makedirs_keeps_file)
next
  case (ZFile rel)
  with assms obtain n where n: "makedirs (base @ butlast rel) t = Some n"
    and wf: "write_file (base @ rel) (Some n) = Some t'"
    by (auto split: option.splits)
  from makedirs_keeps_file [OF n assms(2)] have "lookup q (Some n) = Some File" .
  with wf show ?thesis by (rule write_file_keeps_file)
qed

lemma extractall_keeps_file:
  assumes "extractall base ms t = (t', ok)" and "lookup q t = Some File"
  shows "lookup q t' = Some File"
  using assms
proof (induction ms arbitrary: t)
  case Nil
  then show ?case by simp
next
  case (Cons m ms)
  show ?case
  proof (cases "extract_member base m t")
    case None
    with Cons.prems show ?thesis by simp
  next
    case (Some t1)
    with Cons.prems have "extractall base ms t1 = (t', ok)" by simp
    from Cons.IH [OF this extract_member_keeps_file [OF Some Cons.prems(2)]] show ?thesis .
  qed
qed

lemma finalize_series_log:
  assumes "finalize_series w task ds t = (r, log, t')"
  shows "r = Returned (Some task) \<and> log \<noteq> [] \<and> last log = FinishedSeries"
  using assms
  by (auto simp: finalize_series_def Let_def split: prod.splits option.splits)

lemma nifti_conversion_log:
  assumes "nifti_conversion w (p, d, s) t = (r, log, t')"
  shows "r \<noteq> Raised \<and> log \<noteq> [CopyZipFailed]"
  using nifti_conversion_cases [OF assms]
  by (auto simp: rollback_messages_def dest!: finalize_series_log)

lemma unzip_failed_log:
  assumes "unzip_failed w z sd l t = (r, log, t')"
  shows "log = l"
  using assms by (auto simp: unzip_failed_def rollback_def split: option.splits)

lemma unzip_failed_returns:
  assumes "unzip_failed w z sd l t = (r, log, t')" and "lookup z t = Some File" and "can_remove w z"
  shows "r = Returned None"
  using assms by (auto simp: unzip_failed_def rollback_def os_remove_def split: option.splits)


text \<open>An exception leaves the function before any warning or after one of the unzip step.\<close>

lemma process_series_raised_log:
  assumes run: "process_series w (p, d, s) t = (Raised, log, t')"
  shows "set log \<subseteq> {BadZip, UnzipFailed}"
proof -
  have uf: "m = BadZip \<or> m = UnzipFailed \<Longrightarrow> set log \<subseteq> {BadZip, UnzipFailed}"
    if "unzip_failed w z sd [m] t0 = (Raised, log, t')" for z sd m t0
    using unzip_failed_log [OF that] by auto
  have nc: False if "nifti_conversion w (p, d, s) t5 = (Raised, log, t')" for t5
    using nifti_conversion_log [OF that] by simp
  from run show ?thesis
    by (auto simp: process_series_def Let_def
          split: option.splits if_splits unzip_outcome.splits prod.splits
          dest: nc dest!: unzip_failed_log)
qed

lemma process_series_not_raised:
  assumes run: "process_series w (p, d, s) t = (r, log, t')"
    and stage: "set log \<inter> rollback_messages \<noteq> {}"
    and rm: "can_remove w [p, d, s, s @ ''.zip'']"
    and nodir: "\<not> is_dir (lookup [p, d, s, s @ ''.zip''] t)"
  shows "r \<noteq> Raised"
proof -
  let ?sd = "[p, d, s]" and ?z = "[p, d, s, s @ ''.zip'']"
  from stage have ne: "log \<noteq> []" by auto
  show ?thesis
  proof (cases "os_makedirs w [p, d] t")
    case None
    with run ne show ?thesis by (simp add: process_series_def Let_def)
  next
    case t1: (Some t1)
    have z1: "lookup ?z t1 = lookup ?z t" by (rule os_makedirs_lookup_other [OF t1]) simp
    show ?thesis
    proof (cases "os_makedirs w ?sd t1")
      case None
      with run t1 ne show ?thesis by (simp add: process_series_def Let_def)
    next
      case t2: (Some t2)
      have "lookup ?z t2 = lookup ?z t1" by (rule os_makedirs_lookup_other [OF t2]) simp
      with z1 nodir have nd2: "\<not> is_dir (lookup ?z t2)" by simp
      show ?thesis
      proof (cases "shutil_copy2 w (s @ ''.zip'') ?z t2")
        case None
        with run t1 t2 show ?thesis by (auto simp: process_series_def Let_def)
      next
        case t3: (Some t3)
        from t3 nd2 have "write_file ?z t2 = Some t3"
          by (simp add: shutil_copy2_def split: if_splits)
        then have z3: "lookup ?z t3 = Some File" by (rule write_file_Some(2))
        have z4: "lookup ?z t4 = Some File" if "extractall ?sd ms t3 = (t4, ok)" for ms t4 ok
          using that z3 by (rule extractall_keeps_file)
        have uf: False if "unzip_failed w ?z ?sd l t4 = (Raised, log, t')"
            "extractall ?sd ms t3 = (t4, ok)" for l t4 ms ok
          using unzip_failed_returns [OF that(1) z4 [OF that(2)] rm] by simp
        have nc: False if "nifti_conversion w (p, d, s) t5 = (Raised, log, t')" for t5
          using nifti_conversion_log [OF that] by simp
        from run t1 t2 t3 z3 ne show ?thesis
          by (auto simp: process_series_def Let_def
                split: if_splits unzip_outcome.splits prod.splits option.splits
                dest: uf nc)
      qed
    qed
  qed
qed

text \<open>After a warning of the unzip or conversion step a run that did not raise rolled back.\<close>

lemma process_series_skip_returns:
  assumes run: "process_series w (p, d, s) t = (r, log, t')"
    and stage: "set log \<inter> rollback_messages \<noteq> {}"
    and nr: "r \<noteq> Raised"
  shows "r = Returned None"
    and "\<exists>t0. is_dir (lookup [p, d, s] t0) \<and> t' = shutil_rmtree w [p, d, s] t0"
proof -
  have skip: "set log \<inter> skip_messages \<noteq> {}"
    using stage by (auto simp: skip_messages_def rollback_messages_def)
  from process_series_cases [OF run] nr
  consider "log = [CopyZipFailed]"
    | t0 where "r = Returned None" "is_dir (lookup [p, d, s] t0)" "t' = shutil_rmtree w [p, d, s] t0"
    | "reached_finalize w (p, d, s) r log t'"
    by (auto simp: series_cases_def)
  then have "r = Returned None
      \<and> (\<exists>t0. is_dir (lookup [p, d, s] t0) \<and> t' = shutil_rmtree w [p, d, s] t0)"
  proof cases
    case 1
    with stage show ?thesis by (simp add: rollback_messages_def)
  next
    case 2
    then show ?thesis by blast
  next
    case 3
    from reached_finalize_facts(4) [OF this] skip show ?thesis by simp
  qed
  then show "r = Returned None"
    and "\<exists>t0. is_dir (lookup [p, d, s] t0) \<and> t' = shutil_rmtree w [p, d, s] t0"
    by blast+
qed

section \<open>UnitPipeline: the claims\<close>

text \<open>
  Claim C4. A run that got to the last part of the function (the archive copy is gone,
  DICOM files were found and read, the NIfTI file was written) is completed whatever goes
  wrong there: the function returns the triple and the NIfTI file \<open>series_id.nii.gz\<close>
  is a file of the series directory. Every run of \<open>process_series\<close> that printed the
  warning of a failed sidecar copy or of a failed DICOM removal is such a run, so neither
  failure raises or rolls back.
\<close>

theorem stage5_failures_keep_volume:
  "(reached_finalize w (p, d, s) r log t'
      \<longrightarrow> r = Returned (Some (p, d, s))
        \<and> lookup [p, d, s, s @ ''.nii.gz''] t' = Some File)
   \<and> (process_series w (p, d, s) t = (r, log, t')
        \<and> (CopyJsonFailed \<in> set log \<or> (\<exists>q. RemoveDicomFailed q \<in> set log))
      \<longrightarrow> reached_finalize w (p, d, s) r log t')"
proof (intro conjI impI)
  assume "reached_finalize w (p, d, s) r log t'"
  from reached_finalize_facts(1,2) [OF this]
  show "r = Returned (Some (p, d, s))"
    and "lookup [p, d, s, s @ ''.nii.gz''] t' = Some File" .
next
  assume a: "process_series w (p, d, s) t = (r, log, t')
        \<and> (CopyJsonFailed \<in> set log \<or> (\<exists>q. RemoveDicomFailed q \<in> set log))"
  then have run: "process_series w (p, d, s) t = (r, log, t')"
    and warn: "CopyJsonFailed \<in> set log \<or> (\<exists>q. RemoveDicomFailed q \<in> set log)"
    by blast+
  have "r \<noteq> Raised"
  proof
    assume "r = Raised"
    with run have "set log \<subseteq> {BadZip, UnzipFailed}" by (simp add: process_series_raised_log)
    with warn show False by auto
  qed
  with process_series_cases [OF run] warn
  show "reached_finalize w (p, d, s) r log t'"
    by (auto simp: series_cases_def rollback_messages_def)
qed

theorem stage5_failures_keep_volume_witness:
  "process_series degraded_world (''ISPY2-1001'', ''01-02-2003'', ''S1'') None
     = (Returned (Some (''ISPY2-1001'', ''01-02-2003'', ''S1'')),
        [RemoveDicomFailed [''ISPY2-1001'', ''01-02-2003'', ''S1'', ''IM1.dcm''],
         CopyJsonFailed, FinishedSeries],
        Some (Dir [(''ISPY2-1001'', Dir [(''01-02-2003'', Dir [(''S1'',
                Dir [(''IM1.dcm'', File), (''sub'', Dir []), (''S1.nii.gz'', File)])])])]))
   \<and> reached_finalize degraded_world (''ISPY2-1001'', ''01-02-2003'', ''S1'')
        (Returned (Some (''ISPY2-1001'', ''01-02-2003'', ''S1'')))
        [RemoveDicomFailed [''ISPY2-1001'', ''01-02-2003'', ''S1'', ''IM1.dcm''],
         CopyJsonFailed, FinishedSeries]
        (Some (Dir [(''ISPY2-1001'', Dir [(''01-02-2003'', Dir [(''S1'',
                Dir [(''IM1.dcm'', File), (''sub'', Dir []), (''S1.nii.gz'', File)])])])]))
   \<and> lookup [''ISPY2-1001'', ''01-02-2003'', ''S1'', ''S1'' @ ''.nii.gz'']
        (Some (Dir [(''ISPY2-1001'', Dir [(''01-02-2003'', Dir [(''S1'',
                Dir [(''IM1.dcm'', File), (''sub'', Dir []), (''S1.nii.gz'', File)])])])]))
      = Some File"
proof -
  let ?log = "[RemoveDicomFailed [''ISPY2-1001'', ''01-02-2003'', ''S1'', ''IM1.dcm''],
         CopyJsonFailed, FinishedSeries]"
  let ?t' = "Some (Dir [(''ISPY2-1001'', Dir [(''01-02-2003'', Dir [(''S1'',
                Dir [(''IM1.dcm'', File), (''sub'', Dir []), (''S1.nii.gz'', File)])])])])"
  have run: "process_series degraded_world (''ISPY2-1001'', ''01-02-2003'', ''S1'') None
     = (Returned (Some (''ISPY2-1001'', ''01-02-2003'', ''S1'')), ?log, ?t')"
    by code_simp
  have warn: "CopyJsonFailed \<in> set ?log \<or> (\<exists>q. RemoveDicomFailed q \<in> set ?log)" by simp
  note inst = stage5_failures_keep_volume [of degraded_world "''ISPY2-1001''" "''01-02-2003''"
      "''S1''" "Returned (Some (''ISPY2-1001'', ''01-02-2003'', ''S1''))" ?log ?t' None]
  from inst run warn
  have rf: "reached_finalize degraded_world (''ISPY2-1001'', ''01-02-2003'', ''S1'')
        (Returned (Some (''ISPY2-1001'', ''01-02-2003'', ''S1''))) ?log ?t'"
    by blast
  with inst have "lookup [''ISPY2-1001'', ''01-02-2003'', ''S1'', ''S1'' @ ''.nii.gz''] ?t' = Some File"
    by blast
  with run rf show ?thesis by blast
qed

text \<open>
  Claim C7, as amended. When \<open>process_series\<close> returns, the value is the triple of the
  task (then \<open>Finished series\<close> was the last line printed and no skip warning was) or
  \<open>None\<close>, and then exactly one skip warning was printed. The value does not tell the
  skip reasons apart.
\<close>

theorem returned_value_triple_or_None:
  assumes run: "process_series w (p, d, s) t = (Returned v, log, t')"
  shows "(v = Some (p, d, s) \<and> last log = FinishedSeries \<and> set log \<inter> skip_messages = {})
       \<or> (v = None \<and> (\<exists>m \<in> skip_messages. log = [m]))"
proof -
  from process_series_cases [OF run]
  consider "v = None \<and> (\<exists>m \<in> skip_messages. log = [m])" | "reached_finalize w (p, d, s) (Returned v) log t'"
    by (auto simp: series_cases_def skip_messages_def rollback_messages_def)
  then show ?thesis
  proof cases
    case 1
    then show ?thesis by simp
  next
    case 2
    from reached_finalize_facts(1,4) [OF this] show ?thesis by simp
  qed
qed

theorem returned_value_triple_or_None_witness:
  "process_series no_dicom_world (''ISPY2-1001'', ''01-02-2003'', ''S1'') None
     = (Returned None, [NoDicomFound],
        Some (Dir [(''ISPY2-1001'', Dir [(''01-02-2003'', Dir [])])]))
   \<and> (\<exists>m \<in> skip_messages. [NoDicomFound] = [m])"
proof -
  have run: "process_series no_dicom_world (''ISPY2-1001'', ''01-02-2003'', ''S1'') None
     = (Returned None, [NoDicomFound],
        Some (Dir [(''ISPY2-1001'', Dir [(''01-02-2003'', Dir [])])]))"
    by code_simp
  from returned_value_triple_or_None [OF run] run show ?thesis by simp
qed

text \<open>
  The claim as stated fails: a damaged archive, an archive without DICOM files and a
  failed copy of the archive all return the same value \<open>None\<close>; only the printed warning
  differs.
\<close>

theorem returned_value_counterexample:
  "fst (process_series corrupt_world (''ISPY2-1001'', ''01-02-2003'', ''S1'') None) = Returned None
   \<and> fst (snd (process_series corrupt_world (''ISPY2-1001'', ''01-02-2003'', ''S1'') None)) = [BadZip]
   \<and> fst (process_series no_dicom_world (''ISPY2-1001'', ''01-02-2003'', ''S1'') None) = Returned None
   \<and> fst (snd (process_series no_dicom_world (''ISPY2-1001'', ''01-02-2003'', ''S1'') None)) = [NoDicomFound]
   \<and> fst (process_series no_copy_world (''ISPY2-1001'', ''01-02-2003'', ''S1'') None) = Returned None
   \<and> fst (snd (process_series no_copy_world (''ISPY2-1001'', ''01-02-2003'', ''S1'') None)) = [CopyZipFailed]"
  by code_simp

text \<open>
  Claim C3, as amended. Take a run that printed a warning of the unzip or the conversion
  step. After a warning of the conversion step (no DICOM found, read failed, write failed)
  the function returns \<open>None\<close>; after a warning of the unzip step it returns \<open>None\<close>
  when \<open>os.remove\<close> of the archive copy succeeds: the system does not refuse it and no
  directory stood at the path of the copy before the call. Whenever the function returns
  \<open>None\<close> the serial loop goes on with the remaining tasks, and when the system
  refuses no removal below the series directory, nothing is left at the path of the
  series directory.
\<close>

theorem rollback_removes_staging_directory:
  assumes run: "process_series w (p, d, s) t = (r, log, t')"
    and stage: "set log \<inter> rollback_messages \<noteq> {}"
  shows "(set log \<inter> {NoDicomFound, ReadFailed, WriteFailed} \<noteq> {}
            \<or> (can_remove w [p, d, s, s @ ''.zip'']
                 \<and> \<not> is_dir (lookup [p, d, s, s @ ''.zip''] t))
          \<longrightarrow> r = Returned None)
       \<and> (r = Returned None \<longrightarrow>
            dispatch_serial w ((p, d, s) # tasks) t
              = (case dispatch_serial w tasks t' of (r', log', t'') \<Rightarrow> (r', log @ log', t''))
          \<and> ((\<forall>q. prefix [p, d, s] q \<longrightarrow> can_remove w q \<and> can_rmdir w q)
               \<longrightarrow> lookup [p, d, s] t' = None))"
proof (intro conjI impI)
  assume a: "set log \<inter> {NoDicomFound, ReadFailed, WriteFailed} \<noteq> {}
            \<or> (can_remove w [p, d, s, s @ ''.zip'']
                 \<and> \<not> is_dir (lookup [p, d, s, s @ ''.zip''] t))"
  have "r \<noteq> Raised"
  proof
    assume r: "r = Raised"
    with run have "set log \<subseteq> {BadZip, UnzipFailed}" by (simp add: process_series_raised_log)
    with a have "can_remove w [p, d, s, s @ ''.zip'']"
      and "\<not> is_dir (lookup [p, d, s, s @ ''.zip''] t)" by auto
    from process_series_not_raised [OF run stage this] r show False by simp
  qed
  with run stage show "r = Returned None" by (rule process_series_skip_returns(1))
next
  assume r: "r = Returned None"
  with run show "dispatch_serial w ((p, d, s) # tasks) t
              = (case dispatch_serial w tasks t' of (r', log', t'') \<Rightarrow> (r', log @ log', t''))"
    by simp
next
  assume r: "r = Returned None"
    and rm: "\<forall>q. prefix [p, d, s] q \<longrightarrow> can_remove w q \<and> can_rmdir w q"
  from r have "r \<noteq> Raised" by simp
  from process_series_skip_returns(2) [OF run stage this]
  obtain t0 where "is_dir (lookup [p, d, s] t0)" "t' = shutil_rmtree w [p, d, s] t0" by blast
  with rm show "lookup [p, d, s] t' = None" by (simp add: shutil_rmtree_gone)
qed

theorem rollback_removes_staging_directory_witness:
  "process_series corrupt_world (''ISPY2-1001'', ''01-02-2003'', ''S1'') None
     = (Returned None, [BadZip], Some (Dir [(''ISPY2-1001'', Dir [(''01-02-2003'', Dir [])])]))
   \<and> process_series no_dicom_world (''ISPY2-1001'', ''01-02-2003'', ''S1'') None
     = (Returned None, [NoDicomFound], Some (Dir [(''ISPY2-1001'', Dir [(''01-02-2003'', Dir [])])]))
   \<and> process_series unreadable_world (''ISPY2-1001'', ''01-02-2003'', ''S1'') None
     = (Returned None, [ReadFailed], Some (Dir [(''ISPY2-1001'', Dir [(''01-02-2003'', Dir [])])]))
   \<and> process_series unwritable_world (''ISPY2-1001'', ''01-02-2003'', ''S1'') None
     = (Returned None, [WriteFailed], Some (Dir [(''ISPY2-1001'', Dir [(''01-02-2003'', Dir [])])]))
   \<and> lookup [''ISPY2-1001'', ''01-02-2003'', ''S1'']
        (Some (Dir [(''ISPY2-1001'', Dir [(''01-02-2003'', Dir [])])])) = None
   \<and> dispatch_serial corrupt_world
        [(''ISPY2-1001'', ''01-02-2003'', ''S1''), (''ISPY2-1002'', ''01-02-2003'', ''S2'')] None
     = (Returned (), [BadZip, FinishedSeries],
        Some (Dir [(''ISPY2-1001'', Dir [(''01-02-2003'', Dir [])]),
                   (''ISPY2-1002'', Dir [(''01-02-2003'', Dir [(''S2'',
                       Dir [(''S2.nii.gz'', File), (''S2.json'', File)])])])]))
   \<and> dispatch_serial no_dicom_world
        [(''ISPY2-1001'', ''01-02-2003'', ''S1''), (''ISPY2-1002'', ''01-02-2003'', ''S2'')] None
     = (Returned (), [NoDicomFound, NoDicomFound],
        Some (Dir [(''ISPY2-1001'', Dir [(''01-02-2003'', Dir [])]),
                   (''ISPY2-1002'', Dir [(''01-02-2003'', Dir [])])]))
   \<and> dispatch_serial unreadable_world
        [(''ISPY2-1001'', ''01-02-2003'', ''S1''), (''ISPY2-1002'', ''01-02-2003'', ''S2'')] None
     = (Returned (), [ReadFailed, FinishedSeries],
        Some (Dir [(''ISPY2-1001'', Dir [(''01-02-2003'', Dir [])]),
                   (''ISPY2-1002'', Dir [(''01-02-2003'', Dir [(''S2'',
                       Dir [(''S2.nii.gz'', File), (''S2.json'', File)])])])]))
   \<and> dispatch_serial unwritable_world
        [(''ISPY2-1001'', ''01-02-2003'', ''S1''), (''ISPY2-1002'', ''01-02-2003'', ''S2'')] None
     = (Returned (), [WriteFailed, FinishedSeries],
        Some (Dir [(''ISPY2-1001'', Dir [(''01-02-2003'', Dir [])]),
                   (''ISPY2-1002'', Dir [(''01-02-2003'', Dir [(''S2'',
                       Dir [(''S2.nii.gz'', File), (''S2.json'', File)])])])]))"
proof -
  let ?task = "(''ISPY2-1001'', ''01-02-2003'', ''S1'')"
  let ?tasks = "[(''ISPY2-1002'', ''01-02-2003'', ''S2'')]"
  let ?t' = "Some (Dir [(''ISPY2-1001'', Dir [(''01-02-2003'', Dir [])])])"
  let ?done = "Some (Dir [(''ISPY2-1001'', Dir [(''01-02-2003'', Dir [])]),
                   (''ISPY2-1002'', Dir [(''01-02-2003'', Dir [(''S2'',
                       Dir [(''S2.nii.gz'', File), (''S2.json'', File)])])])])"
  have run2: "process_series corrupt_world ?task None = (Returned None, [BadZip], ?t')"
    by code_simp
  have run3: "process_series no_dicom_world ?task None = (Returned None, [NoDicomFound], ?t')"
    by code_simp
  have run4: "process_series unreadable_world ?task None = (Returned None, [ReadFailed], ?t')"
    by code_simp
  have run5: "process_series unwritable_world ?task None = (Returned None, [WriteFailed], ?t')"
    by code_simp
  have rest2: "dispatch_serial corrupt_world ?tasks ?t' = (Returned (), [FinishedSeries], ?done)"
    by code_simp
  have rest3: "dispatch_serial no_dicom_world ?tasks ?t'
     = (Returned (), [NoDicomFound],
        Some (Dir [(''ISPY2-1001'', Dir [(''01-02-2003'', Dir [])]),
                   (''ISPY2-1002'', Dir [(''01-02-2003'', Dir [])])]))"
    by code_simp
  have rest4: "dispatch_serial unreadable_world ?tasks ?t' = (Returned (), [FinishedSeries], ?done)"
    by code_simp
  have rest5: "dispatch_serial unwritable_world ?tasks ?t' = (Returned (), [FinishedSeries], ?done)"
    by code_simp
  have zip: "can_remove corrupt_world [''ISPY2-1001'', ''01-02-2003'', ''S1'', ''S1'' @ ''.zip'']
      \<and> \<not> is_dir (lookup [''ISPY2-1001'', ''01-02-2003'', ''S1'', ''S1'' @ ''.zip''] None)"
    by (simp add: corrupt_world_def)
  have rm: "\<forall>q. prefix [''ISPY2-1001'', ''01-02-2003'', ''S1''] q
               \<longrightarrow> can_remove corrupt_world q \<and> can_rmdir corrupt_world q"
    by (simp add: corrupt_world_def)
  have st2: "set [BadZip] \<inter> rollback_messages \<noteq> {}" by (simp add: rollback_messages_def)
  have st3: "set [NoDicomFound] \<inter> rollback_messages \<noteq> {}" by (simp add: rollback_messages_def)
  have st4: "set [ReadFailed] \<inter> rollback_messages \<noteq> {}" by (simp add: rollback_messages_def)
  have st5: "set [WriteFailed] \<inter> rollback_messages \<noteq> {}" by (simp add: rollback_messages_def)
  from rollback_removes_staging_directory [OF run2 st2, of ?tasks] zip rm rest2
  have a: "lookup [''ISPY2-1001'', ''01-02-2003'', ''S1''] ?t' = None
      \<and> dispatch_serial corrupt_world (?task # ?tasks) None
          = (Returned (), [BadZip, FinishedSeries], ?done)"
    by simp
  from rollback_removes_staging_directory [OF run3 st3, of ?tasks] rest3
  have b: "dispatch_serial no_dicom_world (?task # ?tasks) None
     = (Returned (), [NoDicomFound, NoDicomFound],
        Some (Dir [(''ISPY2-1001'', Dir [(''01-02-2003'', Dir [])]),
                   (''ISPY2-1002'', Dir [(''01-02-2003'', Dir [])])]))"
    by simp
  from rollback_removes_staging_directory [OF run4 st4, of ?tasks] rest4
  have c: "dispatch_serial unreadable_world (?task # ?tasks) None
      = (Returned (), [ReadFailed, FinishedSeries], ?done)"
    by simp
  from rollback_removes_staging_directory [OF run5 st5, of ?tasks] rest5
  have d: "dispatch_serial unwritable_world (?task # ?tasks) None
      = (Returned (), [WriteFailed, FinishedSeries], ?done)"
    by simp
  from run2 run3 run4 run5 a b c d show ?thesis by blast
qed

text \<open>
  The claim as stated fails: \<open>shutil.rmtree\<close> runs with \<open>ignore_errors=True\<close>, so a
  member of a damaged archive that cannot be removed again stays in the series directory
  and the function still returns \<open>None\<close>. After a warning of the unzip step the
  \<open>os.remove\<close> of the archive copy raises when the system refuses it, and when a
  directory stands at the path of the copy; the series directory then stays as it is.
\<close>

theorem rollback_counterexample:
  "process_series stuck_world (''ISPY2-1001'', ''01-02-2003'', ''S1'') None
     = (Returned None, [BadZip],
        Some (Dir [(''ISPY2-1001'', Dir [(''01-02-2003'', Dir [(''S1'',
                Dir [(''IM1.dcm'', File)])])])]))
   \<and> lookup [''ISPY2-1001'', ''01-02-2003'', ''S1'', ''IM1.dcm'']
        (snd (snd (process_series stuck_world (''ISPY2-1001'', ''01-02-2003'', ''S1'') None)))
      = Some File
   \<and> process_series locked_corrupt_world (''ISPY2-1001'', ''01-02-2003'', ''S1'') None
     = (Raised, [BadZip],
        Some (Dir [(''ISPY2-1001'', Dir [(''01-02-2003'', Dir [(''S1'',
                Dir [(''S1.zip'', File), (''IM1.dcm'', File)])])])]))
   \<and> process_series corrupt_world (''ISPY2-1001'', ''01-02-2003'', ''S1'')
        (Some (Dir [(''ISPY2-1001'', Dir [(''01-02-2003'', Dir [(''S1'',
                Dir [(''S1.zip'', Dir [])])])])]))
     = (Raised, [UnzipFailed],
        Some (Dir [(''ISPY2-1001'', Dir [(''01-02-2003'', Dir [(''S1'',
                Dir [(''S1.zip'', Dir [(''S1.zip'', File)])])])])]))"
  by code_simp




text \<open>
  Claim C5. An exception does leave \<open>process_series\<close>: \<open>os.makedirs\<close> fails when a
  regular file stands where the patient directory should be, and \<open>os.remove\<close> of the
  archive copy can fail; neither call is inside a \<open>try\<close>. The serial loop then ends
  before the second unit is processed, although that unit alone would complete.
\<close>

theorem exception_leaves_process_series:
  "process_series fine_world (''ISPY2-1001'', ''01-02-2003'', ''S1'')
       (Some (Dir [(''ISPY2-1001'', File)]))
     = (Raised, [], Some (Dir [(''ISPY2-1001'', File)]))
   \<and> dispatch_serial fine_world
        [(''ISPY2-1001'', ''01-02-2003'', ''S1''), (''ISPY2-1002'', ''01-02-2003'', ''S2'')]
        (Some (Dir [(''ISPY2-1001'', File)]))
     = (Raised, [], Some (Dir [(''ISPY2-1001'', File)]))
   \<and> fst (dispatch_serial fine_world [(''ISPY2-1002'', ''01-02-2003'', ''S2'')]
        (Some (Dir [(''ISPY2-1001'', File)]))) = Returned ()
   \<and> process_series locked_zip_world (''ISPY2-1001'', ''01-02-2003'', ''S1'') None
     = (Raised, [],
        Some (Dir [(''ISPY2-1001'', Dir [(''01-02-2003'', Dir [(''S1'',
                Dir [(''S1.zip'', File), (''IM1.dcm'', File)])])])]))
   \<and> fst (dispatch_serial locked_zip_world
        [(''ISPY2-1001'', ''01-02-2003'', ''S1''), (''ISPY2-1002'', ''01-02-2003'', ''S2'')] None)
     = Raised"
  by code_simp

section \<open>What os.path.splitext returns\<close>

text \<open>
  \<open>os.path.splitext\<close> never returns \<open>.nii.gz\<close>: for every series id the extension of
  the NIfTI file is \<open>.gz\<close>, which is not in \<open>VALID_EXTENSIONS\<close>.
\<close>

lemma rfind_from_append:
  "rfind_from c (xs @ ys) i found = rfind_from c ys (i + int (length xs)) (rfind_from c xs i found)"
  by (induction xs arbitrary: i found) (simp_all add: algebra_simps)

lemma rfind_from_bound:
  "found < i \<Longrightarrow> - 1 \<le> found
     \<Longrightarrow> - 1 \<le> rfind_from c xs i found \<and> rfind_from c xs i found < i + int (length xs)"
proof (induction xs arbitrary: i found)
  case Nil
  then show ?case by simp
next
  case (Cons x xs)
  have "(if x = c then i else found) < i + 1" "- 1 \<le> (if x = c then i else found)"
    using Cons.prems by auto
  from Cons.IH [OF this] show ?case by simp
qed

lemma splitext_nii_gz: "splitext (sid @ ''.nii.gz'') = (sid @ ''.nii'', ''.gz'')"
proof -
  let ?n = "int (length sid)"
  have dot: "rfind (sid @ ''.nii.gz'') CHR ''.'' = ?n + 4"
    by (simp add: rfind_def rfind_from_append)
  have sep: "rfind (sid @ ''.nii.gz'') CHR ''/'' = rfind sid CHR ''/''"
    by (simp add: rfind_def rfind_from_append)
  have b': "- 1 \<le> rfind sid CHR ''/'' \<and> rfind sid CHR ''/'' \<le> ?n - 1"
    using rfind_from_bound [of "- 1" 0 "CHR ''/''" sid] by (simp add: rfind_def)
  have tk: "take (nat (?n + 4)) (sid @ ''.nii.gz'') = sid @ ''.nii''"
    by (simp add: nat_add_distrib)
  have dr: "drop (nat (?n + 4)) (sid @ ''.nii.gz'') = ''.gz''"
    by (simp add: nat_add_distrib)
  have "nat (rfind sid CHR ''/'' + 1) - length sid = 0" using b' by linarith
  then have "CHR ''n'' \<in> set (drop (nat (rfind sid CHR ''/'' + 1)) (sid @ ''.nii''))"
    by simp
  then have "CHR ''n'' \<in> set (filter (\<lambda>ch. ch \<noteq> CHR ''.'')
      (drop (nat (rfind sid CHR ''/'' + 1)) (sid @ ''.nii'')))" by simp
  then have ne: "filter (\<lambda>ch. ch \<noteq> CHR ''.'')
      (drop (nat (rfind sid CHR ''/'' + 1)) (sid @ ''.nii'')) \<noteq> []"
    by (metis empty_iff list.set(1))
  show ?thesis
    unfolding splitext_def Let_def dot sep tk dr using b' ne by simp
qed

lemma nii_gz_is_invalid: "invalid_file (sid @ ''.nii.gz'')"
proof -
  have "sid @ ''.nii.gz'' \<noteq> ''LICENSE''"
  proof
    assume "sid @ ''.nii.gz'' = ''LICENSE''"
    then have "last (sid @ ''.nii.gz'') = last ''LICENSE''" by simp
    then show False by simp
  qed
  then show ?thesis
    by (simp add: invalid_file_def splitext_nii_gz VALID_EXTENSIONS_def VALID_FILENAMES_def
          lower_def lower_char_def)
qed

text \<open>
  For a plain file name \<open>stem.ext\<close> (no separator, one dot before \<open>ext\<close>, a stem not
  made of dots only) the two parts are the stem and the extension; a name made of dots and
  an extension only, such as \<open>.zip\<close>, has no extension at all.
\<close>

lemma rfind_from_absent: "c \<notin> set xs \<Longrightarrow> rfind_from c xs i found = found"
  by (induction xs arbitrary: i) auto

lemma splitext_stem:
  assumes "CHR ''/'' \<notin> set stem" and "filter (\<lambda>ch. ch \<noteq> CHR ''.'') stem \<noteq> []"
    and "CHR ''.'' \<notin> set e" and "CHR ''/'' \<notin> set e"
  shows "splitext (stem @ CHR ''.'' # e) = (stem, CHR ''.'' # e)"
proof -
  have dot: "rfind (stem @ CHR ''.'' # e) CHR ''.'' = int (length stem)"
    using assms(3) by (simp add: rfind_def rfind_from_append rfind_from_absent)
  have sep: "rfind (stem @ CHR ''.'' # e) CHR ''/'' = - 1"
    using assms(1,4) by (simp add: rfind_def rfind_from_absent)
  show ?thesis
    unfolding splitext_def Let_def dot sep using assms(2) by simp
qed

lemma splitext_dots_only:
  "splitext ''.zip'' = (''.zip'', [])" "splitext ''..json'' = (''..json'', [])"
  by (simp_all add: splitext_def rfind_def)

section \<open>UnitLocator: the claim\<close>

lemma zip_not_json: "endswith f ''.zip'' \<Longrightarrow> \<not> endswith f ''.json''"
proof
  assume a: "endswith f ''.zip''" and b: "endswith f ''.json''"
  from endswith_last [OF a] endswith_last [OF b] show False by simp
qed

lemma archive_stems_Cons:
  "archive_stems (e # es) =
     (if snd e = File \<and> endswith (fst e) ''.zip'' then {fst (splitext (fst e))} else {})
     \<union> archive_stems es"
  by (simp add: archive_stems_def)

lemma sidecar_stems_Cons:
  "sidecar_stems (e # es) =
     (if snd e = File \<and> endswith (fst e) ''.json'' then {fst (splitext (fst e))} else {})
     \<union> sidecar_stems es"
  by (simp add: sidecar_stems_def)

lemma filter_series_fold:
  assumes "fold filter_series_step es (z, j) = (z', j')"
  shows "set z' = set z \<union> archive_stems es \<and> set j' = set j \<union> sidecar_stems es
         \<and> (distinct z \<longrightarrow> distinct z')"
  using assms
proof (induction es arbitrary: z j)
  case Nil
  then show ?case by (simp add: archive_stems_def sidecar_stems_def)
next
  case (Cons e es)
  obtain f node where e: "e = (f, node)" by (cases e)
  obtain z1 j1 where step: "filter_series_step e (z, j) = (z1, j1)"
    by (cases "filter_series_step e (z, j)")
  with Cons.prems have "fold filter_series_step es (z1, j1) = (z', j')" by simp
  from Cons.IH [OF this]
  have ih: "set z' = set z1 \<union> archive_stems es" "set j' = set j1 \<union> sidecar_stems es"
    "distinct z1 \<longrightarrow> distinct z'" by simp_all
  have s1: "set z1 = set z \<union> (if node = File \<and> endswith f ''.zip'' then {fst (splitext f)} else {})"
    and s2: "set j1 = set j \<union> (if node = File \<and> endswith f ''.json'' then {fst (splitext f)} else {})"
    and s3: "distinct z \<longrightarrow> distinct z1"
    using step e zip_not_json [of f]
    by (auto simp: filter_series_step_def split: if_splits)
  from ih s1 s2 s3 e show ?case
    by (simp add: archive_stems_Cons sidecar_stems_Cons Un_assoc)
qed

lemma filter_series_set:
  "set (filter_series es) = archive_stems es \<inter> sidecar_stems es"
  and filter_series_distinct: "distinct (filter_series es)"
proof -
  obtain z j where f: "fold filter_series_step es ([], []) = (z, j)"
    by (cases "fold filter_series_step es ([], [])")
  from filter_series_fold [OF f] f
  show "set (filter_series es) = archive_stems es \<inter> sidecar_stems es"
    and "distinct (filter_series es)"
    by (auto simp: filter_series_def)
qed

text \<open>
  Claim C6. The series ids of the tasks built for a date directory are exactly the stems
  that are both the stem of an archive file and the stem of a sidecar file, one task per
  stem.
\<close>

theorem unit_ids_are_common_stems:
  "set (map (\<lambda>task. snd (snd task)) (date_tasks patient_folder date_folder es))
     = archive_stems es \<inter> sidecar_stems es
   \<and> length (date_tasks patient_folder date_folder es)
     = card (archive_stems es \<inter> sidecar_stems es)"
proof -
  have m: "map (\<lambda>task. snd (snd task)) (date_tasks patient_folder date_folder es) = filter_series es"
    by (simp add: date_tasks_def comp_def)
  have "length (date_tasks patient_folder date_folder es) = length (filter_series es)"
    by (simp add: date_tasks_def)
  also have "\<dots> = card (set (filter_series es))"
    using filter_series_distinct [of es] by (simp add: distinct_card)
  finally show ?thesis using m filter_series_set [of es] by simp
qed

theorem unit_ids_are_common_stems_witness:
  "date_tasks ''ISPY2-1001'' ''01-02-2003''
     [(''a.zip'', File), (''a.json'', File), (''b.zip'', File), (''c.json'', File),
      (''d.zip'', Dir []), (''d.json'', File)]
     = [(''ISPY2-1001'', ''01-02-2003'', ''a'')]
   \<and> archive_stems [(''a.zip'', File), (''a.json'', File), (''b.zip'', File), (''c.json'', File),
      (''d.zip'', Dir []), (''d.json'', File)]
     \<inter> sidecar_stems [(''a.zip'', File), (''a.json'', File), (''b.zip'', File), (''c.json'', File),
      (''d.zip'', Dir []), (''d.json'', File)]
     = {''a''}"
proof -
  let ?es = "[(''a.zip'', File), (''a.json'', File), (''b.zip'', File), (''c.json'', File),
      (''d.zip'', Dir []), (''d.json'', File)]"
  have run: "date_tasks ''ISPY2-1001'' ''01-02-2003'' ?es = [(''ISPY2-1001'', ''01-02-2003'', ''a'')]"
    by code_simp
  from unit_ids_are_common_stems [of "''ISPY2-1001''" "''01-02-2003''" ?es] run
  show ?thesis by simp
qed

section \<open>The sweep after a completed unit\<close>

text \<open>
  Claim C1. The volume file does not survive the sweep: the unit completes, its NIfTI
  file is in the series directory, the allow-list test rejects the name, and after
  \<open>remove_invalid_files_and_empty_dirs\<close> only the sidecar is left.
\<close>

theorem sweep_removes_volume:
  "fst (process_series fine_world (''ISPY2-1001'', ''01-02-2003'', ''S1'') None)
     = Returned (Some (''ISPY2-1001'', ''01-02-2003'', ''S1''))
   \<and> lookup [''ISPY2-1001'', ''01-02-2003'', ''S1'', ''S1.nii.gz'']
        (snd (snd (process_series fine_world (''ISPY2-1001'', ''01-02-2003'', ''S1'') None)))
      = Some File
   \<and> invalid_file ''S1.nii.gz''
   \<and> organize_and_clean fine_world [(''ISPY2-1001'', ''01-02-2003'', ''S1'')] None
     = (Returned (), [FinishedSeries],
        Some (Dir [(''ISPY2-1001'', Dir [(''01-02-2003'', Dir [(''S1'',
                Dir [(''S1.json'', File)])])])]))"
  by code_simp

end
